theory Spec2Isabelle
  imports Complex_Main
begin

section \<open>Data model\<close>

text \<open>
  The scheduler of union-station (class \<^verbatim>\<open>UnionStation\<close>) distributes jobs over a fixed pool
  of web workers. JavaScript numbers are modelled by their mathematical values: counters and
  indices that only ever hold non-negative integers are \<open>nat\<close>, the per-worker job counter
  (which the code decrements without a lower bound) and the queue capacity are \<open>int\<close>, and
  durations in milliseconds are exact rationals (\<open>rat\<close>). The opaque job payload and the job
  result cross the scheduler untouched; they are modelled as numbers.
\<close>

type_synonym payload = nat
type_synonym jobresult = nat

text \<open>The exceptions the JavaScript runtime raises in the modelled code.\<close>

datatype error = TypeError | RangeError

text \<open>\<^verbatim>\<open>UnionWorkerCallRequest\<close>, the message of type \<^verbatim>\<open>"call"\<close>.\<close>

record UnionWorkerCallRequest =
  id_req :: nat
  name :: string
  data :: payload
  workgroupLength :: nat

text \<open>\<^verbatim>\<open>UnionWorkerRequest\<close>: what the station posts to a worker.\<close>

datatype UnionWorkerRequest =
    SetupAck int
  | Call UnionWorkerCallRequest
  | CallPriority UnionWorkerCallRequest

text \<open>\<^verbatim>\<open>UnionWorkerResponse\<close>: what a worker posts to the station
  (\<open>Done id name result dt\<close>).\<close>

datatype UnionWorkerResponse =
    Setup
  | Done nat string jobresult rat

record WorkerStatus =
  estimate :: rat
  running :: int

text \<open>An entry of the \<^verbatim>\<open>#estimates\<close> map: \<^verbatim>\<open>{ length, mean }\<close>.\<close>

record Estimate =
  length_est :: nat
  mean :: rat

text \<open>
  The private state of a \<^verbatim>\<open>UnionStation\<close>.
  \<^item> \<open>workers\<close>: the \<^verbatim>\<open>Worker\<close> objects, each represented by the messages posted to it so far,
    oldest first;
  \<^item> \<open>workerStatus\<close>: the status objects; the object the constructor stored at index \<open>i\<close> stays
    at index \<open>i\<close> for ever, so an object is identified by its index in this array;
  \<^item> \<open>jobs\<close>: the map from job id to \<^verbatim>\<open>Completer\<close>; a completer is a reference into \<open>futures\<close>,
    the store of the completers' promises (\<open>None\<close> while pending, \<open>Some r\<close> once resolved with
    \<open>r\<close>);
  \<^item> \<open>isReady\<close>: the \<^verbatim>\<open>isCompleted\<close> flag of the \<^verbatim>\<open>#isReady\<close> completer;
  \<^item> \<open>awaiting\<close>: the invocations of \<^verbatim>\<open>call\<close> suspended at \<^verbatim>\<open>await this.isReady\<close>, oldest
    first, each with its name, data, workgroup length and priority option;
  \<^item> \<open>updateEstimates_scheduled\<close>, \<open>reflow_scheduled\<close>: the \<^verbatim>\<open>scheduled\<close> flags in the closures
    that \<^verbatim>\<open>debounceIdleCallback\<close> builds for \<^verbatim>\<open>#updateEstimates\<close> and \<^verbatim>\<open>#reflow\<close>.
\<close>

record UnionStation =
  localQueueSize :: int
  fallbackTime :: rat
  workers :: "UnionWorkerRequest list list"
  workerStatus :: "WorkerStatus list"
  jobId :: nat
  jobs :: "nat \<rightharpoonup> nat"
  futures :: "jobresult option list"
  readyCount :: nat
  isReady :: bool
  awaiting :: "(string \<times> payload \<times> nat \<times> bool option) list"
  estimates :: "string \<rightharpoonup> Estimate"
  pendingEstimates :: "(string \<times> rat) list"
  globalQueue :: "UnionWorkerCallRequest list"
  updateEstimates_scheduled :: bool
  reflow_scheduled :: bool

section \<open>arrayMin\<close>

text \<open>
  The loop of \<^verbatim>\<open>arrayMin\<close> over the elements from index 1 on: \<open>i\<close> is the index of the head
  of the remaining list, \<open>m\<close> and \<open>minIdx\<close> are the running minimum and its index. The
  comparison is the strict \<^verbatim>\<open>value < min\<close> of the source.
\<close>

fun arrayMin_loop :: "('a \<Rightarrow> rat) \<Rightarrow> 'a list \<Rightarrow> nat \<Rightarrow> rat \<Rightarrow> nat \<Rightarrow> nat" where
  "arrayMin_loop fn [] i m minIdx = minIdx"
| "arrayMin_loop fn (x # xs) i m minIdx =
     (let v = fn x in
      if v < m then arrayMin_loop fn xs (i + 1) v i
      else arrayMin_loop fn xs (i + 1) m minIdx)"

definition arrayMin :: "'a list \<Rightarrow> ('a \<Rightarrow> rat) \<Rightarrow> ('a \<times> nat) option" where
  "arrayMin array fn =
     (case array of
        [] \<Rightarrow> None
      | x # xs \<Rightarrow>
          (let minIdx = arrayMin_loop fn xs 1 (fn x) 0
           in Some (array ! minIdx, minIdx)))"

definition getWorkerNumericValue :: "WorkerStatus \<Rightarrow> rat" where
  "getWorkerNumericValue a = estimate a"

section \<open>The station's operations\<close>

text \<open>\<^verbatim>\<open>#getEstimate\<close>: the mean recorded for the job type, else the fallback time.\<close>

definition getEstimate :: "UnionStation \<Rightarrow> string \<Rightarrow> rat" where
  "getEstimate s type =
     (case estimates s type of
        None \<Rightarrow> fallbackTime s
      | Some est \<Rightarrow> mean est)"

text \<open>\<^verbatim>\<open>UnionStationCallOptions\<close>; an absent \<^verbatim>\<open>priority\<close> is \<open>None\<close>.\<close>

record UnionStationCallOptions =
  priority :: "bool option"

text \<open>JavaScript truthiness of an optional boolean (\<^verbatim>\<open>priority?: boolean\<close>).\<close>

definition truthy :: "bool option \<Rightarrow> bool" where
  "truthy p = (p = Some True)"

text \<open>\<^verbatim>\<open>worker.postMessage(msg)\<close> on \<^verbatim>\<open>this.#workers[idx]\<close>, for \<open>idx\<close> in range.\<close>

definition postMessage :: "nat \<Rightarrow> UnionWorkerRequest \<Rightarrow> UnionStation \<Rightarrow> UnionStation" where
  "postMessage idx msg s = s\<lparr>workers := (workers s)[idx := workers s ! idx @ [msg]]\<rparr>"

text \<open>
  The status objects paired with their identity. \<^verbatim>\<open>Array.prototype.filter\<close> returns a new
  array holding the same objects, so the element that \<^verbatim>\<open>arrayMin\<close> returns from the
  filtered array is an object of \<^verbatim>\<open>#workerStatus\<close>, and mutating it mutates the pool's status.
\<close>

definition statusObjects :: "UnionStation \<Rightarrow> (nat \<times> WorkerStatus) list" where
  "statusObjects s = zip [0..<length (workerStatus s)] (workerStatus s)"

text \<open>
  \<^verbatim>\<open>#schedule(call, priority)\<close>. The result is the returned boolean and the new state.
  \<open>ref\<close> is the identity of the status object that \<^verbatim>\<open>arrayMin\<close> returned (\<^verbatim>\<open>item\<close>),
  \<open>workerIdx\<close> the index it returned (\<^verbatim>\<open>idx\<close>), which is an index into \<open>eligibleWorkers\<close>;
  the source uses it to index \<^verbatim>\<open>this.#workers\<close>. Reading a missing array element yields
  \<^verbatim>\<open>undefined\<close>, and destructuring it or calling a method on it throws a \<^verbatim>\<open>TypeError\<close>.
\<close>

definition schedule ::
  "UnionWorkerCallRequest \<Rightarrow> bool option \<Rightarrow> UnionStation \<Rightarrow> error + (bool \<times> UnionStation)" where
  "schedule call prio s =
     (let eligibleWorkers =
            (if truthy prio then statusObjects s
             else filter (\<lambda>(ref, st). running st < localQueueSize s) (statusObjects s))
      in if eligibleWorkers = [] then Inr (False, s)
         else
           (case arrayMin eligibleWorkers (\<lambda>(ref, st). getWorkerNumericValue st) of
              None \<Rightarrow> Inl TypeError
            | Some ((ref, status), workerIdx) \<Rightarrow>
                (let status1 = status\<lparr>running := running status + 1\<rparr>;
                     status2 = status1\<lparr>estimate := estimate status1 + getEstimate s (name call)\<rparr>;
                     s1 = s\<lparr>workerStatus := (workerStatus s)[ref := status2]\<rparr>
                 in if workerIdx < length (workers s1)
                    then Inr (True,
                              postMessage workerIdx
                                (if truthy prio then CallPriority call else Call call) s1)
                    else Inl TypeError)))"

text \<open>
  The loop of \<^verbatim>\<open>#reflow\<close>: \<open>i\<close> counts the jobs of the global queue scheduled so far. Jobs
  are scheduled without a priority argument. The result is the final \<open>i\<close> and the state.
\<close>

function reflow_loop :: "nat \<Rightarrow> UnionStation \<Rightarrow> error + (nat \<times> UnionStation)" where
  "reflow_loop i s =
     (if i < length (globalQueue s) then
        (case schedule (globalQueue s ! i) None s of
           Inl e \<Rightarrow> Inl e
         | Inr (ok, s') \<Rightarrow> if ok then reflow_loop (i + 1) s' else Inr (i, s'))
      else Inr (i, s))"
  by pat_completeness auto
termination
  by (relation "measure (\<lambda>(i, s). length (globalQueue s) - i)")
     (auto simp: schedule_def Let_def postMessage_def
           split: if_splits option.splits prod.splits)

text \<open>The function wrapped by \<^verbatim>\<open>#reflow\<close>; \<^verbatim>\<open>splice(0, i)\<close> removes the first \<open>i\<close> jobs.\<close>

definition reflow_fn :: "UnionStation \<Rightarrow> error + UnionStation" where
  "reflow_fn s =
     (if globalQueue s = [] then Inr s
      else
        (case reflow_loop 0 s of
           Inl e \<Rightarrow> Inl e
         | Inr (i, s') \<Rightarrow> Inr (s'\<lparr>globalQueue := drop i (globalQueue s')\<rparr>)))"

text \<open>
  The loop of the function wrapped by \<^verbatim>\<open>#updateEstimates\<close>, over the samples of
  \<^verbatim>\<open>#pendingEstimates\<close> in order, on the \<^verbatim>\<open>#estimates\<close> map.
\<close>

fun updateEstimates_loop ::
  "(string \<times> rat) list \<Rightarrow> (string \<rightharpoonup> Estimate) \<Rightarrow> (string \<rightharpoonup> Estimate)" where
  "updateEstimates_loop [] est = est"
| "updateEstimates_loop ((nm, dt) # rest) est =
     (case est nm of
        None \<Rightarrow> updateEstimates_loop rest (est(nm \<mapsto> \<lparr>length_est = 1, mean = dt\<rparr>))
      | Some e \<Rightarrow>
          (let e1 = e\<lparr>length_est := length_est e + 1\<rparr>;
               e2 = e1\<lparr>mean := (mean e1 * (of_nat (length_est e1) - 1) + dt)
                                 / of_nat (length_est e1)\<rparr>
           in updateEstimates_loop rest (est(nm \<mapsto> e2))))"

text \<open>The function wrapped by \<^verbatim>\<open>#updateEstimates\<close>. It assigns nothing but \<^verbatim>\<open>#estimates\<close>.\<close>

definition updateEstimates_fn :: "UnionStation \<Rightarrow> UnionStation" where
  "updateEstimates_fn s = s\<lparr>estimates := updateEstimates_loop (pendingEstimates s) (estimates s)\<rparr>"

text \<open>
  \<^verbatim>\<open>debounceIdleCallback\<close>: calling the debounced function sets its \<^verbatim>\<open>scheduled\<close> flag and
  requests an idle callback, unless one is requested already; the idle callback, when the host
  runs it, clears the flag and calls the wrapped function.
\<close>

definition updateEstimates :: "UnionStation \<Rightarrow> UnionStation" where
  "updateEstimates s =
     (if updateEstimates_scheduled s then s else s\<lparr>updateEstimates_scheduled := True\<rparr>)"

definition updateEstimates_idle :: "UnionStation \<Rightarrow> UnionStation" where
  "updateEstimates_idle s =
     (if updateEstimates_scheduled s
      then updateEstimates_fn (s\<lparr>updateEstimates_scheduled := False\<rparr>)
      else s)"

definition reflow :: "UnionStation \<Rightarrow> UnionStation" where
  "reflow s = (if reflow_scheduled s then s else s\<lparr>reflow_scheduled := True\<rparr>)"

definition reflow_idle :: "UnionStation \<Rightarrow> error + UnionStation" where
  "reflow_idle s =
     (if reflow_scheduled s then reflow_fn (s\<lparr>reflow_scheduled := False\<rparr>) else Inr s)"

text \<open>\<^verbatim>\<open>Completer.resolve\<close> on the completer \<open>c\<close>: a promise settles once.\<close>

definition resolve :: "nat \<Rightarrow> jobresult \<Rightarrow> jobresult option list \<Rightarrow> jobresult option list" where
  "resolve c r fs = (if c < length fs \<and> fs ! c = None then fs[c := Some r] else fs)"

text \<open>
  \<^verbatim>\<open>#onMessage(workerIdx, event)\<close>. An index outside the pool makes \<^verbatim>\<open>this.#workers[workerIdx]\<close>
  or \<^verbatim>\<open>this.#workerStatus[workerIdx]\<close> undefined, and the access to it throws.
\<close>

definition onMessage :: "nat \<Rightarrow> UnionWorkerResponse \<Rightarrow> UnionStation \<Rightarrow> error + UnionStation" where
  "onMessage workerIdx msg s =
     (case msg of
        Setup \<Rightarrow>
          (if workerIdx < length (workers s) then
             (let s1 = postMessage workerIdx (SetupAck (localQueueSize s)) s;
                  s2 = s1\<lparr>readyCount := readyCount s1 + 1\<rparr>
              in Inr (if readyCount s2 = length (workers s2) then s2\<lparr>isReady := True\<rparr> else s2))
           else Inl TypeError)
      | Done i nm result dt \<Rightarrow>
          (let s1 = (case jobs s i of
                       Some completer \<Rightarrow>
                         s\<lparr>jobs := (jobs s)(i := None),
                           futures := resolve completer result (futures s)\<rparr>
                     | None \<Rightarrow> s)
           in if workerIdx < length (workerStatus s1) then
                (let status = workerStatus s1 ! workerIdx;
                     status1 = status\<lparr>running := running status - 1\<rparr>;
                     status2 = status1\<lparr>estimate := estimate status1 - getEstimate s1 nm\<rparr>;
                     s2 = s1\<lparr>workerStatus := (workerStatus s1)[workerIdx := status2]\<rparr>;
                     s3 = s2\<lparr>pendingEstimates := pendingEstimates s2 @ [(nm, dt)]\<rparr>;
                     s4 = updateEstimates s3
                 in Inr (if running status2 = 0 \<and> globalQueue s4 \<noteq> [] then reflow s4 else s4))
              else Inl TypeError))"

text \<open>
  The part of \<^verbatim>\<open>call\<close> after the readiness gate: allocate the job id and the completer,
  register the completer, try to schedule, and push to the global queue on refusal.
\<close>

definition call_admit ::
  "string \<Rightarrow> payload \<Rightarrow> nat \<Rightarrow> bool option \<Rightarrow> UnionStation \<Rightarrow> error + UnionStation" where
  "call_admit nm d wl prio s =
     (let jobId0 = jobId s;
          s1 = s\<lparr>jobId := jobId s + 1\<rparr>;
          completer = length (futures s1);
          s2 = s1\<lparr>futures := futures s1 @ [None]\<rparr>;
          c = \<lparr>id_req = jobId0, name = nm, data = d, workgroupLength = wl\<rparr>;
          s3 = s2\<lparr>jobs := (jobs s2)(jobId0 \<mapsto> completer)\<rparr>
      in case schedule c prio s3 of
           Inl e \<Rightarrow> Inl e
         | Inr (ok, s4) \<Rightarrow>
             Inr (if \<not> ok then s4\<lparr>globalQueue := globalQueue s4 @ [c]\<rparr> else s4))"

text \<open>The third argument of \<^verbatim>\<open>call\<close>: \<^verbatim>\<open>number | UnionStationCallOptions\<close>.\<close>

datatype LengthOrOptions = WorkgroupLength nat | CallOptions UnionStationCallOptions

text \<open>
  The deswizzling of the optional arguments of \<^verbatim>\<open>call\<close>: the workgroup length (zero when
  the third argument is not a number) and the \<^verbatim>\<open>priority\<close> of the options object in force.
\<close>

definition deswizzle ::
  "LengthOrOptions option \<Rightarrow> UnionStationCallOptions option \<Rightarrow> nat \<times> bool option" where
  "deswizzle workgroupLengthOrOptions optionsOpt =
     (let hasWorkgroupLength =
            (case workgroupLengthOrOptions of Some (WorkgroupLength n) \<Rightarrow> True | _ \<Rightarrow> False);
          wl = (case workgroupLengthOrOptions of Some (WorkgroupLength n) \<Rightarrow> n | _ \<Rightarrow> 0);
          opts = (if hasWorkgroupLength then optionsOpt
                  else (case workgroupLengthOrOptions of Some (CallOptions opt) \<Rightarrow> Some opt
                        | _ \<Rightarrow> None));
          prio = (case opts of None \<Rightarrow> None | Some opt \<Rightarrow> priority opt)
      in (wl, prio))"

text \<open>
  \<^verbatim>\<open>call(name, data, workgroupLengthOrOptions?, optionsOpt?)\<close>. While the station is not
  ready the invocation is suspended at the \<^verbatim>\<open>await\<close>, having changed nothing.
\<close>

definition call ::
  "string \<Rightarrow> payload \<Rightarrow> LengthOrOptions option \<Rightarrow> UnionStationCallOptions option
     \<Rightarrow> UnionStation \<Rightarrow> error + UnionStation" where
  "call nm d workgroupLengthOrOptions optionsOpt s =
     (case deswizzle workgroupLengthOrOptions optionsOpt of
        (wl, prio) \<Rightarrow>
          if \<not> isReady s then Inr (s\<lparr>awaiting := awaiting s @ [(nm, d, wl, prio)]\<rparr>)
          else call_admit nm d wl prio s)"

text \<open>
  Resolving \<^verbatim>\<open>#isReady\<close> queues the continuations of the suspended invocations as
  microtasks; they run in the order of suspension once the message handler has returned.
\<close>

fun resume_calls ::
  "(string \<times> payload \<times> nat \<times> bool option) list \<Rightarrow> UnionStation \<Rightarrow> error + UnionStation" where
  "resume_calls [] s = Inr s"
| "resume_calls ((nm, d, wl, prio) # rest) s =
     (case call_admit nm d wl prio s of
        Inl e \<Rightarrow> Inl e
      | Inr s' \<Rightarrow> resume_calls rest s')"

definition runMicrotasks :: "UnionStation \<Rightarrow> error + UnionStation" where
  "runMicrotasks s =
     (if isReady s then resume_calls (awaiting s) (s\<lparr>awaiting := []\<rparr>) else Inr s)"

text \<open>\<^verbatim>\<open>getTimeSnapshot\<close>: the mean of every entry of the estimate table.\<close>

definition getTimeSnapshot :: "UnionStation \<Rightarrow> (string \<rightharpoonup> rat)" where
  "getTimeSnapshot s = (\<lambda>key. map_option mean (estimates s key))"

text \<open>
  \<^verbatim>\<open>UnionStationOptions\<close> and the constructor. \<open>cpuCount\<close> is the host's
  \<^verbatim>\<open>navigator.hardwareConcurrency\<close>; the time snapshot is given by its entries in the order of
  \<^verbatim>\<open>Object.entries\<close>. The counts are integers. \<^verbatim>\<open>new Array(workerCount)\<close> throws a
  \<^verbatim>\<open>RangeError\<close> unless the length is between 0 and \<open>2\<^sup>3\<^sup>2 - 1\<close>; there is no other check on
  the worker count.
\<close>

record UnionStationOptions =
  localQueueSize_opt :: "int option"
  maxWorkers :: "int option"
  timeSnapshot :: "(string \<times> rat) list option"
  fallbackTime_opt :: "rat option"

definition constructor :: "int \<Rightarrow> UnionStationOptions \<Rightarrow> error + UnionStation" where
  "constructor cpuCount opts =
     (let lqs = (case localQueueSize_opt opts of None \<Rightarrow> 8 | Some v \<Rightarrow> v);
          mw = (case maxWorkers opts of None \<Rightarrow> 4 | Some v \<Rightarrow> v);
          fb = (case fallbackTime_opt opts of None \<Rightarrow> 10 | Some v \<Rightarrow> v);
          workerCount = min (cpuCount - 1) mw
      in if workerCount < 0 \<or> 4294967295 < workerCount then Inl RangeError
         else Inr \<lparr>localQueueSize = lqs,
                   fallbackTime = fb,
                   workers = replicate (nat workerCount) [],
                   workerStatus = replicate (nat workerCount) \<lparr>estimate = 0, running = 0\<rparr>,
                   jobId = 0,
                   jobs = Map.empty,
                   futures = [],
                   readyCount = 0,
                   isReady = False,
                   awaiting = [],
                   estimates =
                     (case timeSnapshot opts of
                        None \<Rightarrow> Map.empty
                      | Some entries \<Rightarrow>
                          fold (\<lambda>(nm, m) est. est(nm \<mapsto> \<lparr>length_est = 1, mean = m\<rparr>))
                               entries Map.empty),
                   pendingEstimates = [],
                   globalQueue = [],
                   updateEstimates_scheduled = False,
                   reflow_scheduled = False\<rparr>)"

section \<open>Runs of the station\<close>

text \<open>
  What the event loop delivers to a station: a message from the worker at a pool index, an
  invocation of \<^verbatim>\<open>call\<close>, or one of the two idle callbacks. A run stops at the first
  exception.
\<close>

datatype event =
    Message nat UnionWorkerResponse
  | CallEvent string payload "LengthOrOptions option" "UnionStationCallOptions option"
  | IdleUpdateEstimates
  | IdleReflow

fun step :: "event \<Rightarrow> UnionStation \<Rightarrow> error + UnionStation" where
  "step (Message workerIdx msg) s =
     (case onMessage workerIdx msg s of Inl e \<Rightarrow> Inl e | Inr s' \<Rightarrow> runMicrotasks s')"
| "step (CallEvent nm d a3 a4) s = call nm d a3 a4 s"
| "step IdleUpdateEstimates s = Inr (updateEstimates_idle s)"
| "step IdleReflow s = reflow_idle s"

fun exec :: "event list \<Rightarrow> UnionStation \<Rightarrow> error + UnionStation" where
  "exec [] s = Inr s"
| "exec (ev # evs) s = (case step ev s of Inl e \<Rightarrow> Inl e | Inr s' \<Rightarrow> exec evs s')"

text \<open>Constructing a station and running it; reading a component of the outcome.\<close>

definition run :: "int \<Rightarrow> UnionStationOptions \<Rightarrow> event list \<Rightarrow> error + UnionStation" where
  "run cpuCount opts evs =
     (case constructor cpuCount opts of Inl e \<Rightarrow> Inl e | Inr s \<Rightarrow> exec evs s)"

definition observe :: "(UnionStation \<Rightarrow> 'a) \<Rightarrow> error + UnionStation \<Rightarrow> 'a option" where
  "observe f r = (case r of Inl e \<Rightarrow> None | Inr s \<Rightarrow> Some (f s))"

text \<open>Options giving the queue capacity and the worker limit, all else default.\<close>

definition sized :: "int \<Rightarrow> int \<Rightarrow> UnionStationOptions" where
  "sized lqs mw =
     \<lparr>localQueueSize_opt = Some lqs, maxWorkers = Some mw,
      timeSnapshot = None, fallbackTime_opt = None\<rparr>"

definition default_options :: UnionStationOptions where
  "default_options =
     \<lparr>localQueueSize_opt = None, maxWorkers = None, timeSnapshot = None, fallbackTime_opt = None\<rparr>"

definition job :: "nat \<Rightarrow> UnionWorkerCallRequest" where
  "job i = \<lparr>id_req = i, name = ''add'', data = 0, workgroupLength = 0\<rparr>"

definition add_call :: event where
  "add_call = CallEvent ''add'' 0 None None"

definition add_call_priority :: event where
  "add_call_priority = CallEvent ''add'' 0 (Some (CallOptions \<lparr>priority = Some True\<rparr>)) None"

text \<open>
  One worker; two jobs are admitted, the first completes, the estimates are recomputed, and
  the second completes.
\<close>

definition two_runs :: "event list" where
  "two_runs = [Message 0 Setup, add_call, add_call,
               Message 0 (Done 0 ''add'' 15 4), IdleUpdateEstimates,
               Message 0 (Done 1 ''add'' 15 6)]"

definition snapshot_add :: "UnionStation \<Rightarrow> rat option" where
  "snapshot_add s = getTimeSnapshot s ''add''"

section \<open>Observers of runs and the reflow of the specification\<close>

text \<open>The number of setup messages in a trace.\<close>

fun is_setup :: "event \<Rightarrow> bool" where
  "is_setup (Message workerIdx Setup) = True"
| "is_setup ev = False"

definition setups :: "event list \<Rightarrow> nat" where
  "setups evs = length (filter is_setup evs)"

text \<open>The invocations of \<^verbatim>\<open>call\<close> in a trace, with their arguments deswizzled.\<close>

fun call_of :: "event \<Rightarrow> (string \<times> payload \<times> nat \<times> bool option) list" where
  "call_of (CallEvent nm d a3 a4) = [(nm, d, fst (deswizzle a3 a4), snd (deswizzle a3 a4))]"
| "call_of ev = []"

definition calls :: "event list \<Rightarrow> (string \<times> payload \<times> nat \<times> bool option) list" where
  "calls evs = concat (map call_of evs)"

text \<open>The duration samples that the completions of a trace report.\<close>

fun sample_of :: "event \<Rightarrow> (string \<times> rat) list" where
  "sample_of (Message workerIdx (Done i nm r dt)) = [(nm, dt)]"
| "sample_of ev = []"

definition samples :: "event list \<Rightarrow> (string \<times> rat) list" where
  "samples evs = concat (map sample_of evs)"

text \<open>
  The events a station with \<open>n\<close> workers can receive: the constructor installs the message
  handler on the workers of the pool only, so a message comes with a pool index below \<open>n\<close>.
\<close>

fun valid_event :: "nat \<Rightarrow> event \<Rightarrow> bool" where
  "valid_event n (Message workerIdx msg) = (workerIdx < n)"
| "valid_event n ev = True"

text \<open>The messages other than setup acknowledgments posted to the workers.\<close>

fun is_ack :: "UnionWorkerRequest \<Rightarrow> bool" where
  "is_ack (SetupAck n) = True"
| "is_ack msg = False"

definition posted_jobs :: "UnionStation \<Rightarrow> UnionWorkerRequest list" where
  "posted_jobs s = filter (\<lambda>msg. \<not> is_ack msg) (concat (workers s))"

text \<open>
  Reflow in the words of the specification: while the global queue is non-empty, try to admit
  its head job without priority; on success remove the job from the head and continue; on the
  first failure stop and leave the remaining jobs in place.
\<close>

fun reflow_spec_loop :: "UnionWorkerCallRequest list \<Rightarrow> UnionStation \<Rightarrow> error + UnionStation" where
  "reflow_spec_loop [] s = Inr (s\<lparr>globalQueue := []\<rparr>)"
| "reflow_spec_loop (head # rest) s =
     (case schedule head None s of
        Inl e \<Rightarrow> Inl e
      | Inr (ok, s') \<Rightarrow>
          if ok then reflow_spec_loop rest s' else Inr (s'\<lparr>globalQueue := head # rest\<rparr>))"

definition reflow_spec :: "UnionStation \<Rightarrow> error + UnionStation" where
  "reflow_spec s = reflow_spec_loop (globalQueue s) s"

text \<open>The state a run reaches, for runs that raise no exception.\<close>

definition reached :: "int \<Rightarrow> UnionStationOptions \<Rightarrow> event list \<Rightarrow> UnionStation" where
  "reached cpuCount opts evs = projr (run cpuCount opts evs)"

text \<open>One worker of capacity one with one job admitted.\<close>

definition busy_station :: UnionStation where
  "busy_station = reached 8 (sized 1 1) [Message 0 Setup, add_call]"

text \<open>
  Two workers of capacity one; four jobs were called, two of them wait in the global queue,
  and worker 0 has reported the completion of job 0.
\<close>

definition queued_station :: UnionStation where
  "queued_station =
     reached 8 (sized 1 2)
       [Message 0 Setup, Message 1 Setup, add_call, add_call, add_call, add_call,
        Message 0 (Done 0 ''add'' 15 4)]"



section \<open>Properties of arrayMin and of scheduling\<close>

text \<open>
  \<^verbatim>\<open>arrayMin\<close> returns the first index at which the function is least, with the element
  there. \<^verbatim>\<open>#schedule\<close> changes nothing but the two pool arrays, refuses exactly when no worker
  is eligible, and throws no exception when the two arrays have one length.
\<close>

lemma arrayMin_loop_min:
  assumes "i = length pre" "minIdx < i" "m = fn (pre ! minIdx)"
    "\<forall>j<i. m \<le> fn (pre ! j)" "\<forall>j<minIdx. m < fn (pre ! j)"
  shows "arrayMin_loop fn xs i m minIdx < length (pre @ xs)
       \<and> (\<forall>j<length (pre @ xs). fn ((pre @ xs) ! arrayMin_loop fn xs i m minIdx) \<le> fn ((pre @ xs) ! j))
       \<and> (\<forall>j<arrayMin_loop fn xs i m minIdx. fn ((pre @ xs) ! arrayMin_loop fn xs i m minIdx) < fn ((pre @ xs) ! j))"
  using assms
proof (induction xs arbitrary: pre i m minIdx)
  case Nil
  then show ?case by simp
next
  case (Cons x xs)
  show ?case
  proof (cases "fn x < m")
    case True
    have a: "i + 1 = length (pre @ [x])" using Cons.prems by simp
    have b: "i < i + 1" by simp
    have c: "fn x = fn ((pre @ [x]) ! i)" using Cons.prems by simp
    have d: "\<forall>j<i + 1. fn x \<le> fn ((pre @ [x]) ! j)"
      using Cons.prems True by (auto simp: nth_append less_Suc_eq intro: less_imp_le order.trans)
    have e: "\<forall>j<i. fn x < fn ((pre @ [x]) ! j)"
      using Cons.prems True by (auto simp: nth_append intro: less_le_trans)
    from Cons.IH[OF a b c d e] True show ?thesis by simp
  next
    case False
    have a: "i + 1 = length (pre @ [x])" using Cons.prems by simp
    have b: "minIdx < i + 1" using Cons.prems by simp
    have c: "m = fn ((pre @ [x]) ! minIdx)" using Cons.prems by (simp add: nth_append)
    have d: "\<forall>j<i + 1. m \<le> fn ((pre @ [x]) ! j)"
      using Cons.prems False by (auto simp: nth_append less_Suc_eq)
    have e: "\<forall>j<minIdx. m < fn ((pre @ [x]) ! j)"
      using Cons.prems by (auto simp: nth_append)
    from Cons.IH[OF a b c d e] False show ?thesis by simp
  qed
qed

lemma arrayMin_None: "arrayMin xs fn = None \<longleftrightarrow> xs = []"
  by (simp add: arrayMin_def Let_def split: list.splits)

lemma arrayMin_Some:
  assumes "arrayMin xs fn = Some (a, k)"
  shows "k < length xs \<and> a = xs ! k
       \<and> (\<forall>j<length xs. fn (xs ! k) \<le> fn (xs ! j))
       \<and> (\<forall>j<k. fn (xs ! k) < fn (xs ! j))"
proof (cases xs)
  case Nil
  with assms show ?thesis by (simp add: arrayMin_def)
next
  case (Cons x rest)
  have k: "k = arrayMin_loop fn rest 1 (fn x) 0" and a: "a = xs ! k"
    using assms Cons by (auto simp: arrayMin_def Let_def)
  have "arrayMin_loop fn rest 1 (fn x) 0 < length ([x] @ rest)
       \<and> (\<forall>j<length ([x] @ rest). fn (([x] @ rest) ! arrayMin_loop fn rest 1 (fn x) 0) \<le> fn (([x] @ rest) ! j))
       \<and> (\<forall>j<arrayMin_loop fn rest 1 (fn x) 0. fn (([x] @ rest) ! arrayMin_loop fn rest 1 (fn x) 0) < fn (([x] @ rest) ! j))"
    by (rule arrayMin_loop_min) simp_all
  with k a Cons show ?thesis by simp
qed

lemma statusObjects_nth:
  "k < length (workerStatus s) \<Longrightarrow> statusObjects s ! k = (k, workerStatus s ! k)"
  by (simp add: statusObjects_def)

lemma statusObjects_length: "length (statusObjects s) = length (workerStatus s)"
  by (simp add: statusObjects_def)


lemma schedule_frame:
  assumes "schedule c p s = Inr (ok, s')"
  shows "s' = s\<lparr>workers := workers s', workerStatus := workerStatus s'\<rparr>
           \<and> length (workers s') = length (workers s)
           \<and> length (workerStatus s') = length (workerStatus s)"
  using assms
  by (auto simp: schedule_def Let_def postMessage_def split: if_splits option.splits prod.splits)

lemma schedule_changes:
  assumes "schedule c p s = Inr (ok, s')"
  shows "\<exists>wk ws. s' = s\<lparr>workers := wk, workerStatus := ws\<rparr>
           \<and> length wk = length (workers s) \<and> length ws = length (workerStatus s)"
  using schedule_frame[OF assms] by blast

lemma eligible_empty_iff:
  "filter (\<lambda>(ref, st). running st < localQueueSize s) (statusObjects s) = []
     \<longleftrightarrow> (\<forall>st \<in> set (workerStatus s). localQueueSize s \<le> running st)"
proof -
  have "map snd (statusObjects s) = workerStatus s"
    by (simp add: statusObjects_def)
  then have "set (workerStatus s) = snd ` set (statusObjects s)"
    by (metis set_map)
  then show ?thesis
    by (auto simp: filter_empty_conv not_less)
qed

lemma schedule_refused_nonpriority:
  assumes "\<not> truthy p"
  shows "(\<exists>s'. schedule c p s = Inr (False, s'))
     \<longleftrightarrow> (\<forall>st \<in> set (workerStatus s). localQueueSize s \<le> running st)"
  unfolding eligible_empty_iff[symmetric] using assms
  by (auto simp: schedule_def Let_def split: if_splits option.splits prod.splits)

lemma schedule_refused_same: "schedule c p s = Inr (False, s') \<Longrightarrow> s' = s"
  by (auto simp: schedule_def Let_def split: if_splits option.splits prod.splits)

lemma schedule_priority:
  assumes wf: "length (workers s) = length (workerStatus s)" and ne: "workerStatus s \<noteq> []"
  shows "\<exists>w < length (workerStatus s).
           schedule c (Some True) s =
             Inr (True, s\<lparr>workers := (workers s)[w := workers s ! w @ [CallPriority c]],
                          workerStatus := (workerStatus s)
                             [w := (workerStatus s ! w)
                                     \<lparr>running := running (workerStatus s ! w) + 1,
                                      estimate := estimate (workerStatus s ! w)
                                                    + getEstimate s (name c)\<rparr>]\<rparr>)
         \<and> (\<forall>j < length (workerStatus s). estimate (workerStatus s ! w) \<le> estimate (workerStatus s ! j))
         \<and> (\<forall>j < w. estimate (workerStatus s ! w) < estimate (workerStatus s ! j))"
proof -
  let ?f = "\<lambda>(ref, st). getWorkerNumericValue st"
  from ne have "statusObjects s \<noteq> []" by (simp add: statusObjects_def)
  then obtain a k where am: "arrayMin (statusObjects s) ?f = Some (a, k)"
    using arrayMin_None[of "statusObjects s" ?f] by (cases "arrayMin (statusObjects s) ?f") auto
  note ams = arrayMin_Some[OF am]
  from ams have k: "k < length (workerStatus s)"
    by (simp add: statusObjects_length)
  from ams k have a: "a = (k, workerStatus s ! k)"
    by (simp add: statusObjects_nth)
  from ams k have mn: "\<forall>j<length (workerStatus s). estimate (workerStatus s ! k) \<le> estimate (workerStatus s ! j)"
    by (simp add: statusObjects_length statusObjects_nth getWorkerNumericValue_def)
  from ams k have fst: "\<forall>j<k. estimate (workerStatus s ! k) < estimate (workerStatus s ! j)"
    by (simp add: statusObjects_length statusObjects_nth getWorkerNumericValue_def)
  have "schedule c (Some True) s =
             Inr (True, s\<lparr>workers := (workers s)[k := workers s ! k @ [CallPriority c]],
                          workerStatus := (workerStatus s)
                             [k := (workerStatus s ! k)
                                     \<lparr>running := running (workerStatus s ! k) + 1,
                                      estimate := estimate (workerStatus s ! k)
                                                    + getEstimate s (name c)\<rparr>]\<rparr>)"
    using am a k wf \<open>statusObjects s \<noteq> []\<close>
    by (simp add: schedule_def truthy_def Let_def postMessage_def)
  then show ?thesis using k mn fst by blast
qed


lemma schedule_total:
  assumes wf: "length (workers s) = length (workerStatus s)"
  shows "\<exists>ok s'. schedule c p s = Inr (ok, s')"
proof -
  define el where "el = (if truthy p then statusObjects s
             else filter (\<lambda>(ref, st). running st < localQueueSize s) (statusObjects s))"
  show ?thesis
  proof (cases "el = []")
    case True
    then show ?thesis by (auto simp: schedule_def Let_def el_def)
  next
    case False
    then obtain a k where am: "arrayMin el (\<lambda>(ref, st). getWorkerNumericValue st) = Some (a, k)"
      using arrayMin_None[of el "\<lambda>(ref, st). getWorkerNumericValue st"]
      by (cases "arrayMin el (\<lambda>(ref, st). getWorkerNumericValue st)") auto
    obtain ref st where a: "a = (ref, st)" by (cases a)
    from arrayMin_Some[OF am] have "k < length el" by simp
    also have "length el \<le> length (statusObjects s)" by (simp add: el_def)
    finally have "k < length (workers s)" using wf by (simp add: statusObjects_length)
    with False am a show ?thesis
      unfolding schedule_def Let_def el_def[symmetric] by auto
  qed
qed

lemma schedule_globalQueue:
  "schedule c p s = Inr (ok, s') \<Longrightarrow> globalQueue s' = globalQueue s"
  by (auto simp: schedule_def Let_def postMessage_def split: if_splits option.splits prod.splits)

lemma schedule_set_globalQueue:
  "schedule c p (s\<lparr>globalQueue := q\<rparr>) =
     (case schedule c p s of
        Inl e \<Rightarrow> Inl e
      | Inr (ok, s') \<Rightarrow> Inr (ok, s'\<lparr>globalQueue := q\<rparr>))"
  by (simp add: schedule_def Let_def postMessage_def statusObjects_def getEstimate_def
           split: option.splits prod.splits)

section \<open>The reflow loop\<close>

text \<open>
  The index loop of \<^verbatim>\<open>#reflow\<close> followed by the splice computes what the head-removal loop
  of the specification computes.
\<close>

declare reflow_loop.simps [simp del]

lemma reflow_loop_refines:
  "reflow_spec_loop (drop i (globalQueue s)) s =
     (case reflow_loop i s of
        Inl e \<Rightarrow> Inl e
      | Inr (k, s') \<Rightarrow> Inr (s'\<lparr>globalQueue := drop k (globalQueue s')\<rparr>))"
proof (induction i s rule: reflow_loop.induct)
  case (1 i s)
  show ?case
  proof (cases "i < length (globalQueue s)")
    case False
    then show ?thesis by (simp add: reflow_loop.simps[of i s])
  next
    case True
    then have d: "drop i (globalQueue s) = globalQueue s ! i # drop (i + 1) (globalQueue s)"
      by (simp add: Cons_nth_drop_Suc)
    show ?thesis
    proof (cases "schedule (globalQueue s ! i) None s")
      case (Inl e)
      with True d show ?thesis by (simp add: reflow_loop.simps[of i s])
    next
      case (Inr r)
      obtain ok s' where r: "r = (ok, s')" by (cases r)
      have gq: "globalQueue s' = globalQueue s"
        using Inr r by (simp add: schedule_globalQueue)
      show ?thesis
      proof (cases ok)
        case True
        have "reflow_spec_loop (drop (i + 1) (globalQueue s')) s' =
               (case reflow_loop (i + 1) s' of
                  Inl e \<Rightarrow> Inl e
                | Inr (k, t) \<Rightarrow> Inr (t\<lparr>globalQueue := drop k (globalQueue t)\<rparr>))"
          using "1.IH"[OF \<open>i < length (globalQueue s)\<close> Inr r[symmetric] True] .
        with True Inr r gq d \<open>i < length (globalQueue s)\<close> show ?thesis
          by (simp add: reflow_loop.simps[of i s])
      next
        case False
        with Inr r gq d \<open>i < length (globalQueue s)\<close> show ?thesis
          by (simp add: reflow_loop.simps[of i s])
      qed
    qed
  qed
qed

lemma reflow_fn_refines: "reflow_fn s = reflow_spec s"
proof (cases "globalQueue s = []")
  case True
  then have "s\<lparr>globalQueue := []\<rparr> = s\<lparr>globalQueue := globalQueue s\<rparr>" by simp
  then have "s\<lparr>globalQueue := []\<rparr> = s" by simp
  with True show ?thesis by (simp add: reflow_fn_def reflow_spec_def)
next
  case False
  then show ?thesis
    using reflow_loop_refines[of 0 s] by (simp add: reflow_fn_def reflow_spec_def)
qed

lemma reflow_spec_loop_rest:
  "reflow_spec_loop q s = Inr s' \<Longrightarrow>
     (\<exists>k\<le>length q. globalQueue s' = drop k q)
     \<and> (globalQueue s' \<noteq> [] \<longrightarrow> schedule (hd (globalQueue s')) None s' = Inr (False, s'))"
proof (induction q arbitrary: s)
  case Nil
  then show ?case by auto
next
  case (Cons head rest)
  show ?case
  proof (cases "schedule head None s")
    case (Inl e)
    with Cons.prems show ?thesis by simp
  next
    case (Inr r)
    obtain ok s1 where r: "r = (ok, s1)" by (cases r)
    show ?thesis
    proof (cases ok)
      case True
      with Cons.prems Inr r have "reflow_spec_loop rest s1 = Inr s'" by simp
      from Cons.IH[OF this] obtain k where "k \<le> length rest" "globalQueue s' = drop k rest"
        and stop: "globalQueue s' \<noteq> [] \<longrightarrow> schedule (hd (globalQueue s')) None s' = Inr (False, s')"
        by blast
      then have "Suc k \<le> length (head # rest)" "globalQueue s' = drop (Suc k) (head # rest)"
        by simp_all
      with stop show ?thesis by blast
    next
      case False
      with Inr r have "s1 = s" by (simp add: schedule_refused_same)
      with Cons.prems Inr r False have s': "s' = s\<lparr>globalQueue := head # rest\<rparr>" by simp
      have "schedule head None s' = Inr (False, s')"
        using Inr r False \<open>s1 = s\<close> by (simp add: s' schedule_set_globalQueue)
      moreover have "globalQueue s' = drop 0 (head # rest)" by (simp add: s')
      moreover have "(0::nat) \<le> length (head # rest)" by simp
      moreover have "hd (globalQueue s') = head" by (simp add: s')
      ultimately show ?thesis by auto
    qed
  qed
qed

lemma reflow_loop_changes:
  "reflow_loop i s = Inr (k, s') \<Longrightarrow>
     \<exists>wk ws. s' = s\<lparr>workers := wk, workerStatus := ws\<rparr>
           \<and> length wk = length (workers s) \<and> length ws = length (workerStatus s)"
proof (induction i s rule: reflow_loop.induct)
  case (1 i s)
  show ?case
  proof (cases "i < length (globalQueue s)")
    case False
    with "1.prems" have "s' = s" by (simp add: reflow_loop.simps[of i s])
    then have "s' = s\<lparr>workers := workers s, workerStatus := workerStatus s\<rparr>" by simp
    then show ?thesis by blast
  next
    case True
    show ?thesis
    proof (cases "schedule (globalQueue s ! i) None s")
      case (Inl e)
      with True "1.prems" show ?thesis by (simp add: reflow_loop.simps[of i s])
    next
      case (Inr r)
      obtain ok s1 where r: "r = (ok, s1)" by (cases r)
      from schedule_changes[OF Inr[unfolded r]]
      obtain wk ws where s1: "s1 = s\<lparr>workers := wk, workerStatus := ws\<rparr>"
        and l: "length wk = length (workers s)" "length ws = length (workerStatus s)"
        by blast
      show ?thesis
      proof (cases ok)
        case False
        with True Inr r "1.prems" have "s' = s1" by (simp add: reflow_loop.simps[of i s])
        with s1 l show ?thesis by blast
      next
        case ok: True
        with True Inr r "1.prems" have "reflow_loop (i + 1) s1 = Inr (k, s')"
          by (simp add: reflow_loop.simps[of i s])
        from "1.IH"[OF True Inr r[symmetric] ok this]
        obtain wk' ws' where "s' = s1\<lparr>workers := wk', workerStatus := ws'\<rparr>"
          "length wk' = length (workers s1)" "length ws' = length (workerStatus s1)"
          by blast
        with s1 l have "s' = s\<lparr>workers := wk', workerStatus := ws'\<rparr>
           \<and> length wk' = length (workers s) \<and> length ws' = length (workerStatus s)"
          by simp
        then show ?thesis by blast
      qed
    qed
  qed
qed

lemma reflow_fn_changes:
  assumes "reflow_fn s = Inr s'"
  shows "\<exists>wk ws gq. s' = s\<lparr>workers := wk, workerStatus := ws, globalQueue := gq\<rparr>
           \<and> length wk = length (workers s) \<and> length ws = length (workerStatus s)
           \<and> (globalQueue s = [] \<longrightarrow> wk = workers s \<and> ws = workerStatus s \<and> gq = [])"
proof (cases "globalQueue s = []")
  case True
  with assms have "s' = s" by (simp add: reflow_fn_def)
  then have "s' = s\<lparr>workers := workers s, workerStatus := workerStatus s,
                     globalQueue := globalQueue s\<rparr>" by simp
  with True show ?thesis by auto
next
  case False
  with assms obtain k s1 where rl: "reflow_loop 0 s = Inr (k, s1)"
    and s': "s' = s1\<lparr>globalQueue := drop k (globalQueue s1)\<rparr>"
    by (auto simp: reflow_fn_def split: sum.splits)
  from reflow_loop_changes[OF rl]
  obtain wk ws where "s1 = s\<lparr>workers := wk, workerStatus := ws\<rparr>"
    "length wk = length (workers s)" "length ws = length (workerStatus s)"
    by blast
  with s' have "s' = s\<lparr>workers := wk, workerStatus := ws, globalQueue := drop k (globalQueue s)\<rparr>
           \<and> length wk = length (workers s) \<and> length ws = length (workerStatus s)"
    by simp
  with False show ?thesis by blast
qed

lemma reflow_loop_total:
  "length (workers s) = length (workerStatus s) \<Longrightarrow> \<exists>k s'. reflow_loop i s = Inr (k, s')"
proof (induction i s rule: reflow_loop.induct)
  case (1 i s)
  show ?case
  proof (cases "i < length (globalQueue s)")
    case False
    then show ?thesis by (simp add: reflow_loop.simps[of i s])
  next
    case True
    from schedule_total[OF "1.prems", of "globalQueue s ! i" None]
    obtain ok s1 where sc: "schedule (globalQueue s ! i) None s = Inr (ok, s1)" by blast
    show ?thesis
    proof (cases ok)
      case False
      with True sc show ?thesis by (simp add: reflow_loop.simps[of i s])
    next
      case ok: True
      from schedule_changes[OF sc] "1.prems"
      have "length (workers s1) = length (workerStatus s1)" by auto
      from "1.IH"[OF True sc refl ok this] True sc ok show ?thesis
        by (simp add: reflow_loop.simps[of i s])
    qed
  qed
qed

lemma reflow_fn_total:
  assumes "length (workers s) = length (workerStatus s)"
  shows "\<exists>s'. reflow_fn s = Inr s'"
  using reflow_loop_total[OF assms, of 0] by (auto simp: reflow_fn_def)

section \<open>What calls and messages change\<close>

text \<open>
  For each operation, the state it returns as an update of the state it was given.
\<close>

lemma call_admit_priority:
  assumes wf: "length (workers s) = length (workerStatus s)" and ne: "workerStatus s \<noteq> []"
  shows "\<exists>w<length (workerStatus s). \<exists>s'.
           call_admit nm d wl (Some True) s = Inr s'
         \<and> workers s' = (workers s)
              [w := workers s ! w @ [CallPriority \<lparr>id_req = jobId s, name = nm, data = d,
                                                    workgroupLength = wl\<rparr>]]
         \<and> workerStatus s' = (workerStatus s)
              [w := (workerStatus s ! w)
                      \<lparr>running := running (workerStatus s ! w) + 1,
                       estimate := estimate (workerStatus s ! w) + getEstimate s nm\<rparr>]
         \<and> globalQueue s' = globalQueue s
         \<and> jobs s' = (jobs s)(jobId s \<mapsto> length (futures s))
         \<and> (\<forall>j<length (workerStatus s).
                estimate (workerStatus s ! w) \<le> estimate (workerStatus s ! j))
         \<and> (\<forall>j<w. estimate (workerStatus s ! w) < estimate (workerStatus s ! j))"
proof -
  let ?c = "\<lparr>id_req = jobId s, name = nm, data = d, workgroupLength = wl\<rparr>"
  let ?s3 = "s\<lparr>jobId := jobId s + 1, futures := futures s @ [None],
               jobs := (jobs s)(jobId s \<mapsto> length (futures s))\<rparr>"
  have wf3: "length (workers ?s3) = length (workerStatus ?s3)" using wf by simp
  have ne3: "workerStatus ?s3 \<noteq> []" using ne by simp
  from schedule_priority[OF wf3 ne3, of ?c]
  obtain w where w: "w < length (workerStatus s)"
    and sch: "schedule ?c (Some True) ?s3 =
       Inr (True, ?s3\<lparr>workers := (workers ?s3)[w := workers ?s3 ! w @ [CallPriority ?c]],
                       workerStatus := (workerStatus ?s3)
                         [w := (workerStatus ?s3 ! w)
                             \<lparr>running := running (workerStatus ?s3 ! w) + 1,
                              estimate := estimate (workerStatus ?s3 ! w)
                                            + getEstimate ?s3 (name ?c)\<rparr>]\<rparr>)"
    and mn: "\<forall>j<length (workerStatus s). estimate (workerStatus s ! w) \<le> estimate (workerStatus s ! j)"
    and fs: "\<forall>j<w. estimate (workerStatus s ! w) < estimate (workerStatus s ! j)"
    by auto
  have ge: "getEstimate ?s3 nm = getEstimate s nm"
    by (simp add: getEstimate_def split: option.splits)
  have "call_admit nm d wl (Some True) s =
          Inr (?s3\<lparr>workers := (workers ?s3)[w := workers ?s3 ! w @ [CallPriority ?c]],
                       workerStatus := (workerStatus ?s3)
                         [w := (workerStatus ?s3 ! w)
                             \<lparr>running := running (workerStatus ?s3 ! w) + 1,
                              estimate := estimate (workerStatus ?s3 ! w)
                                            + getEstimate ?s3 (name ?c)\<rparr>]\<rparr>)"
    unfolding call_admit_def Let_def using sch by simp
  with w mn fs ge show ?thesis by (intro exI[of _ w]) simp
qed

lemma call_admit_refused:
  assumes "\<not> truthy p" and "\<forall>st \<in> set (workerStatus s). localQueueSize s \<le> running st"
  shows "call_admit nm d wl p s =
           Inr (s\<lparr>jobId := jobId s + 1, futures := futures s @ [None],
                  jobs := (jobs s)(jobId s \<mapsto> length (futures s)),
                  globalQueue := globalQueue s
                     @ [\<lparr>id_req = jobId s, name = nm, data = d, workgroupLength = wl\<rparr>]\<rparr>)"
proof -
  let ?c = "\<lparr>id_req = jobId s, name = nm, data = d, workgroupLength = wl\<rparr>"
  let ?s3 = "s\<lparr>jobId := jobId s + 1, futures := futures s @ [None],
               jobs := (jobs s)(jobId s \<mapsto> length (futures s))\<rparr>"
  have "\<forall>st \<in> set (workerStatus ?s3). localQueueSize ?s3 \<le> running st"
    using assms(2) by simp
  with schedule_refused_nonpriority[OF assms(1), of ?c ?s3]
  obtain s' where "schedule ?c p ?s3 = Inr (False, s')" by blast
  moreover from this have "s' = ?s3" by (rule schedule_refused_same)
  ultimately have "schedule ?c p ?s3 = Inr (False, ?s3)" by simp
  then show ?thesis unfolding call_admit_def Let_def by simp
qed

lemma call_admit_changes:
  assumes "call_admit nm d wl p s = Inr s'"
  shows "\<exists>wk ws gq. s' = s\<lparr>jobId := jobId s + 1, futures := futures s @ [None],
                             jobs := (jobs s)(jobId s \<mapsto> length (futures s)),
                             workers := wk, workerStatus := ws, globalQueue := gq\<rparr>
           \<and> length wk = length (workers s) \<and> length ws = length (workerStatus s)"
proof -
  let ?c = "\<lparr>id_req = jobId s, name = nm, data = d, workgroupLength = wl\<rparr>"
  let ?s3 = "s\<lparr>jobId := jobId s + 1, futures := futures s @ [None],
               jobs := (jobs s)(jobId s \<mapsto> length (futures s))\<rparr>"
  from assms obtain ok s4 where sch: "schedule ?c p ?s3 = Inr (ok, s4)"
    and s': "s' = (if \<not> ok then s4\<lparr>globalQueue := globalQueue s4 @ [?c]\<rparr> else s4)"
    by (auto simp: call_admit_def Let_def split: sum.splits)
  from schedule_changes[OF sch]
  obtain wk ws where s4: "s4 = ?s3\<lparr>workers := wk, workerStatus := ws\<rparr>"
    and l: "length wk = length (workers s)" "length ws = length (workerStatus s)"
    by auto
  have "s' = s\<lparr>jobId := jobId s + 1, futures := futures s @ [None],
                jobs := (jobs s)(jobId s \<mapsto> length (futures s)),
                workers := wk, workerStatus := ws,
                globalQueue := (if \<not> ok then globalQueue s @ [?c] else globalQueue s)\<rparr>"
    unfolding s' s4 by simp
  with l show ?thesis by blast
qed

lemma call_admit_total:
  assumes "length (workers s) = length (workerStatus s)"
  shows "\<exists>s'. call_admit nm d wl p s = Inr s'"
proof -
  let ?s3 = "s\<lparr>jobId := jobId s + 1, futures := futures s @ [None],
               jobs := (jobs s)(jobId s \<mapsto> length (futures s))\<rparr>"
  have "length (workers ?s3) = length (workerStatus ?s3)" using assms by simp
  from schedule_total[OF this, of "\<lparr>id_req = jobId s, name = nm, data = d, workgroupLength = wl\<rparr>" p]
  show ?thesis by (auto simp: call_admit_def Let_def)
qed

lemma resume_calls_changes:
  "resume_calls cs s = Inr s' \<Longrightarrow>
     \<exists>f jb wk ws gq. s' = s\<lparr>jobId := jobId s + length cs, futures := f, jobs := jb,
                              workers := wk, workerStatus := ws, globalQueue := gq\<rparr>
           \<and> length wk = length (workers s) \<and> length ws = length (workerStatus s)"
proof (induction cs arbitrary: s)
  case Nil
  then have "s' = s\<lparr>jobId := jobId s + length ([]::(string \<times> payload \<times> nat \<times> bool option) list),
                     futures := futures s, jobs := jobs s,
                     workers := workers s, workerStatus := workerStatus s,
                     globalQueue := globalQueue s\<rparr>" by simp
  then show ?case by blast
next
  case (Cons c cs)
  obtain nm d wl p where c: "c = (nm, d, wl, p)" by (cases c)
  from Cons.prems c obtain s1 where ca: "call_admit nm d wl p s = Inr s1"
    and rc: "resume_calls cs s1 = Inr s'"
    by (auto split: sum.splits)
  from call_admit_changes[OF ca]
  obtain wk ws gq where s1: "s1 = s\<lparr>jobId := jobId s + 1, futures := futures s @ [None],
                             jobs := (jobs s)(jobId s \<mapsto> length (futures s)),
                             workers := wk, workerStatus := ws, globalQueue := gq\<rparr>"
    and l: "length wk = length (workers s)" "length ws = length (workerStatus s)"
    by blast
  from Cons.IH[OF rc]
  obtain f' jb' wk' ws' gq' where s': "s' = s1\<lparr>jobId := jobId s1 + length cs, futures := f',
          jobs := jb', workers := wk', workerStatus := ws', globalQueue := gq'\<rparr>"
    and l': "length wk' = length (workers s1)" "length ws' = length (workerStatus s1)"
    by blast
  have "s' = s\<lparr>jobId := jobId s + length (c # cs), futures := f', jobs := jb',
                workers := wk', workerStatus := ws', globalQueue := gq'\<rparr>"
    unfolding s' s1 by simp
  moreover have "length wk' = length (workers s)" "length ws' = length (workerStatus s)"
    using l l' s1 by simp_all
  ultimately show ?case by blast
qed

lemma resume_calls_total:
  "length (workers s) = length (workerStatus s) \<Longrightarrow> \<exists>s'. resume_calls cs s = Inr s'"
proof (induction cs arbitrary: s)
  case Nil
  then show ?case by simp
next
  case (Cons c cs)
  obtain nm d wl p where c: "c = (nm, d, wl, p)" by (cases c)
  from call_admit_total[OF Cons.prems, of nm d wl p]
  obtain s1 where ca: "call_admit nm d wl p s = Inr s1" by blast
  from call_admit_changes[OF ca] Cons.prems
  have "length (workers s1) = length (workerStatus s1)" by auto
  from Cons.IH[OF this] ca c show ?case by simp
qed

lemma runMicrotasks_changes:
  assumes "runMicrotasks s = Inr s'"
  shows "(\<not> isReady s \<longrightarrow> s' = s)
       \<and> (isReady s \<longrightarrow>
            (\<exists>f jb wk ws gq. s' = s\<lparr>awaiting := [], jobId := jobId s + length (awaiting s),
                                     futures := f, jobs := jb,
                                     workers := wk, workerStatus := ws, globalQueue := gq\<rparr>
               \<and> length wk = length (workers s) \<and> length ws = length (workerStatus s)))"
proof (cases "isReady s")
  case False
  with assms show ?thesis by (simp add: runMicrotasks_def)
next
  case True
  with assms have "resume_calls (awaiting s) (s\<lparr>awaiting := []\<rparr>) = Inr s'"
    by (simp add: runMicrotasks_def)
  from resume_calls_changes[OF this]
  obtain f jb wk ws gq where
    "s' = s\<lparr>awaiting := [], jobId := jobId s + length (awaiting s), futures := f, jobs := jb,
                              workers := wk, workerStatus := ws, globalQueue := gq\<rparr>"
    "length wk = length (workers s)" "length ws = length (workerStatus s)"
    by auto
  with True show ?thesis by blast
qed

lemma onMessage_Setup:
  assumes "onMessage i Setup s = Inr s'"
  shows "i < length (workers s)
       \<and> s' = s\<lparr>workers := (workers s)[i := workers s ! i @ [SetupAck (localQueueSize s)]],
                readyCount := readyCount s + 1,
                isReady := (isReady s \<or> readyCount s + 1 = length (workers s))\<rparr>"
  using assms by (auto simp: onMessage_def Let_def postMessage_def split: if_splits)

lemma updateEstimates_eq: "updateEstimates s = s\<lparr>updateEstimates_scheduled := True\<rparr>"
proof (cases "updateEstimates_scheduled s")
  case True
  then have "s\<lparr>updateEstimates_scheduled := True\<rparr>
               = s\<lparr>updateEstimates_scheduled := updateEstimates_scheduled s\<rparr>" by simp
  with True show ?thesis by (simp add: updateEstimates_def)
next
  case False
  then show ?thesis by (simp add: updateEstimates_def)
qed

lemma reflow_eq: "reflow s = s\<lparr>reflow_scheduled := True\<rparr>"
proof (cases "reflow_scheduled s")
  case True
  then have "s\<lparr>reflow_scheduled := True\<rparr> = s\<lparr>reflow_scheduled := reflow_scheduled s\<rparr>"
    by simp
  with True show ?thesis by (simp add: reflow_def)
next
  case False
  then show ?thesis by (simp add: reflow_def)
qed

lemma onMessage_Done:
  assumes "onMessage i (Done k nm r dt) s = Inr s'"
  shows "i < length (workerStatus s)
       \<and> s' = s\<lparr>jobs := (jobs s)(k := None),
                futures := (case jobs s k of None \<Rightarrow> futures s
                            | Some c \<Rightarrow> resolve c r (futures s)),
                workerStatus := (workerStatus s)
                   [i := (workerStatus s ! i)
                          \<lparr>running := running (workerStatus s ! i) - 1,
                           estimate := estimate (workerStatus s ! i) - getEstimate s nm\<rparr>],
                pendingEstimates := pendingEstimates s @ [(nm, dt)],
                updateEstimates_scheduled := True,
                reflow_scheduled :=
                  (reflow_scheduled s
                   \<or> (running (workerStatus s ! i) - 1 = 0 \<and> globalQueue s \<noteq> []))\<rparr>"
proof (cases "jobs s k")
  case None
  then have j: "(jobs s)(k := None) = jobs s" by (simp add: fun_upd_idem)
  have g: "getEstimate (s\<lparr>jobs := jobs s\<rparr>) nm = getEstimate s nm" by simp
  from None assms have i: "i < length (workerStatus s)"
    by (simp add: onMessage_def Let_def split: if_splits)
  show ?thesis
  proof (cases "running (workerStatus s ! i) - 1 = 0 \<and> globalQueue s \<noteq> []")
    case True
    with None assms i j show ?thesis
      by (simp add: onMessage_def Let_def updateEstimates_eq reflow_eq)
  next
    case False
    have "s\<lparr>reflow_scheduled := reflow_scheduled s\<rparr> = s" by simp
    with False None assms i j show ?thesis
      by (auto simp add: onMessage_def Let_def updateEstimates_eq reflow_eq)
  qed
next
  case (Some c)
  have g: "getEstimate (s\<lparr>jobs := (jobs s)(k := None),
                           futures := resolve c r (futures s)\<rparr>) nm = getEstimate s nm"
    by (simp add: getEstimate_def split: option.splits)
  from Some assms have i: "i < length (workerStatus s)"
    by (simp add: onMessage_def Let_def split: if_splits)
  show ?thesis
  proof (cases "running (workerStatus s ! i) - 1 = 0 \<and> globalQueue s \<noteq> []")
    case True
    with Some assms i g show ?thesis
      by (simp add: onMessage_def Let_def updateEstimates_eq reflow_eq)
  next
    case False
    with Some assms i g show ?thesis
      by (auto simp add: onMessage_def Let_def updateEstimates_eq reflow_eq)
  qed
qed

section \<open>The effect of one event\<close>

text \<open>
  What one event changes in the components that the readiness gate and the sample buffer
  depend on, and that an event the station can receive raises no exception.
\<close>

lemma exec_snoc:
  "exec (evs @ [ev]) s = (case exec evs s of Inl e \<Rightarrow> Inl e | Inr t \<Rightarrow> step ev t)"
  by (induction evs arbitrary: s) (auto split: sum.splits)

lemma posted_jobs_ack:
  assumes "i < length wk" and "filter (\<lambda>msg. \<not> is_ack msg) (concat wk) = []"
  shows "filter (\<lambda>msg. \<not> is_ack msg) (concat (wk[i := wk ! i @ [SetupAck n]])) = []"
proof -
  have "is_ack x" if "x \<in> set ys" and "ys \<in> set (wk[i := wk ! i @ [SetupAck n]])" for x ys
  proof -
    from that(2) have "ys = wk ! i @ [SetupAck n] \<or> ys \<in> set wk"
      using set_update_subset_insert[of wk i "wk ! i @ [SetupAck n]"] by auto
    then show ?thesis
    proof
      assume "ys = wk ! i @ [SetupAck n]"
      with that(1) have "x = SetupAck n \<or> x \<in> set (wk ! i)" by auto
      moreover have "wk ! i \<in> set wk" using assms(1) by simp
      ultimately show ?thesis using assms(2) by (auto simp: filter_empty_conv)
    next
      assume "ys \<in> set wk"
      with that(1) assms(2) show ?thesis by (auto simp: filter_empty_conv)
    qed
  qed
  then show ?thesis by (auto simp: filter_empty_conv)
qed

lemma step_effect_setup:
  assumes "step (Message i Setup) t = Inr s"
  shows "length (workers s) = length (workers t)
       \<and> readyCount s = readyCount t + 1
       \<and> (isReady s \<longleftrightarrow> isReady t \<or> readyCount t + 1 = length (workers t))
       \<and> 0 < length (workers t)
       \<and> jobId s + length (awaiting s) = jobId t + length (awaiting t)
       \<and> (isReady s \<longrightarrow> awaiting s = [])
       \<and> (\<not> isReady s \<longrightarrow> awaiting s = awaiting t \<and> jobs s = jobs t \<and> futures s = futures t
             \<and> globalQueue s = globalQueue t \<and> (posted_jobs t = [] \<longrightarrow> posted_jobs s = []))
       \<and> pendingEstimates s = pendingEstimates t"
proof -
  from assms obtain s1 where om: "onMessage i Setup t = Inr s1" and rm: "runMicrotasks s1 = Inr s"
    by (auto split: sum.splits)
  from onMessage_Setup[OF om] have i: "i < length (workers t)"
    and s1: "s1 = t\<lparr>workers := (workers t)[i := workers t ! i @ [SetupAck (localQueueSize t)]],
                readyCount := readyCount t + 1,
                isReady := (isReady t \<or> readyCount t + 1 = length (workers t))\<rparr>"
    by simp_all
  show ?thesis
  proof (cases "isReady s1")
    case False
    with runMicrotasks_changes[OF rm] have "s = s1" by simp
    with False s1 i posted_jobs_ack[OF i, of "localQueueSize t"] show ?thesis
      by (auto simp: posted_jobs_def)
  next
    case True
    with runMicrotasks_changes[OF rm]
    obtain f jb wk ws gq where s: "s = s1\<lparr>awaiting := [], jobId := jobId s1 + length (awaiting s1),
                                     futures := f, jobs := jb,
                                     workers := wk, workerStatus := ws, globalQueue := gq\<rparr>"
      and l: "length wk = length (workers s1)"
      by blast
    from True s1 have r: "isReady t \<or> readyCount t + 1 = length (workers t)" by simp
    show ?thesis unfolding s using l i r by (auto simp: s1)
  qed
qed

lemma step_effect_done:
  assumes "step (Message i (Done k nm r dt)) t = Inr s"
  shows "length (workers s) = length (workers t)
       \<and> readyCount s = readyCount t
       \<and> (isReady s \<longleftrightarrow> isReady t)
       \<and> jobId s + length (awaiting s) = jobId t + length (awaiting t)
       \<and> (isReady s \<longrightarrow> awaiting s = [])
       \<and> (\<not> isReady s \<longrightarrow> awaiting s = awaiting t \<and> (jobs t = Map.empty \<longrightarrow> jobs s = Map.empty)
             \<and> (jobs t = Map.empty \<longrightarrow> futures s = futures t)
             \<and> globalQueue s = globalQueue t \<and> posted_jobs s = posted_jobs t)
       \<and> pendingEstimates s = pendingEstimates t @ [(nm, dt)]"
proof -
  from assms obtain s1 where om: "onMessage i (Done k nm r dt) t = Inr s1"
    and rm: "runMicrotasks s1 = Inr s"
    by (auto split: sum.splits)
  note s1 = onMessage_Done[OF om, THEN conjunct2]
  have a: "isReady s1 = isReady t" "workers s1 = workers t" "readyCount s1 = readyCount t"
     "jobId s1 = jobId t" "awaiting s1 = awaiting t" "globalQueue s1 = globalQueue t"
     "pendingEstimates s1 = pendingEstimates t @ [(nm, dt)]"
     "jobs s1 = (jobs t)(k := None)"
     "futures s1 = (case jobs t k of None \<Rightarrow> futures t | Some c \<Rightarrow> resolve c r (futures t))"
    by (subst s1, simp)+
  show ?thesis
  proof (cases "isReady s1")
    case False
    with runMicrotasks_changes[OF rm] have "s = s1" by simp
    with False a show ?thesis by (auto simp: posted_jobs_def)
  next
    case True
    with runMicrotasks_changes[OF rm]
    obtain f jb wk ws gq where s: "s = s1\<lparr>awaiting := [], jobId := jobId s1 + length (awaiting s1),
                                     futures := f, jobs := jb,
                                     workers := wk, workerStatus := ws, globalQueue := gq\<rparr>"
      and l: "length wk = length (workers s1)"
      by blast
    show ?thesis unfolding s using l True a by simp
  qed
qed

lemma step_effect_call:
  assumes "step (CallEvent nm d a3 a4) t = Inr s"
  shows "length (workers s) = length (workers t)
       \<and> readyCount s = readyCount t
       \<and> (isReady s \<longleftrightarrow> isReady t)
       \<and> jobId s + length (awaiting s) = jobId t + length (awaiting t) + 1
       \<and> (awaiting t = [] \<longrightarrow> isReady s \<longrightarrow> awaiting s = [])
       \<and> (\<not> isReady s \<longrightarrow>
             awaiting s = awaiting t @ [(nm, d, fst (deswizzle a3 a4), snd (deswizzle a3 a4))]
             \<and> jobs s = jobs t \<and> futures s = futures t
             \<and> globalQueue s = globalQueue t \<and> posted_jobs s = posted_jobs t)
       \<and> pendingEstimates s = pendingEstimates t"
proof -
  obtain wl prio where dz: "deswizzle a3 a4 = (wl, prio)" by (cases "deswizzle a3 a4")
  show ?thesis
  proof (cases "isReady t")
    case False
    with assms dz have "s = t\<lparr>awaiting := awaiting t @ [(nm, d, wl, prio)]\<rparr>"
      by (simp add: call_def)
    with False dz show ?thesis by (simp add: posted_jobs_def)
  next
    case True
    with assms dz have "call_admit nm d wl prio t = Inr s" by (simp add: call_def)
    from call_admit_changes[OF this]
    obtain wk ws gq where s: "s = t\<lparr>jobId := jobId t + 1, futures := futures t @ [None],
                             jobs := (jobs t)(jobId t \<mapsto> length (futures t)),
                             workers := wk, workerStatus := ws, globalQueue := gq\<rparr>"
      and l: "length wk = length (workers t)"
      by blast
    show ?thesis unfolding s using l True by simp
  qed
qed

lemma step_effect_idle_update:
  assumes "step IdleUpdateEstimates t = Inr s"
  shows "\<exists>est u. s = t\<lparr>estimates := est, updateEstimates_scheduled := u\<rparr>"
proof (cases "updateEstimates_scheduled t")
  case True
  with assms have "s = t\<lparr>estimates := updateEstimates_loop (pendingEstimates t) (estimates t),
                         updateEstimates_scheduled := False\<rparr>"
    by (auto simp add: updateEstimates_idle_def updateEstimates_fn_def)
  then show ?thesis by blast
next
  case False
  with assms have "s = t" by (simp add: updateEstimates_idle_def)
  then have "s = t\<lparr>estimates := estimates t,
                   updateEstimates_scheduled := updateEstimates_scheduled t\<rparr>" by simp
  then show ?thesis by blast
qed

lemma step_effect_idle_reflow:
  assumes "step IdleReflow t = Inr s"
  shows "\<exists>wk ws gq rf. s = t\<lparr>workers := wk, workerStatus := ws, globalQueue := gq,
                             reflow_scheduled := rf\<rparr>
           \<and> length wk = length (workers t)
           \<and> (globalQueue t = [] \<longrightarrow> wk = workers t \<and> gq = [])"
proof (cases "reflow_scheduled t")
  case True
  with assms have "reflow_fn (t\<lparr>reflow_scheduled := False\<rparr>) = Inr s"
    by (simp add: reflow_idle_def)
  from reflow_fn_changes[OF this]
  obtain wk ws gq where "s = t\<lparr>reflow_scheduled := False, workers := wk, workerStatus := ws, globalQueue := gq\<rparr>"
    "length wk = length (workers t)" "globalQueue t = [] \<longrightarrow> wk = workers t \<and> gq = []"
    by auto
  then have "s = t\<lparr>workers := wk, workerStatus := ws, globalQueue := gq, reflow_scheduled := False\<rparr>
           \<and> length wk = length (workers t)
           \<and> (globalQueue t = [] \<longrightarrow> wk = workers t \<and> gq = [])" by simp
  then show ?thesis by blast
next
  case False
  with assms have "s = t" by (simp add: reflow_idle_def)
  then have "s = t\<lparr>workers := workers t, workerStatus := workerStatus t,
                   globalQueue := globalQueue t, reflow_scheduled := reflow_scheduled t\<rparr>
           \<and> length (workers t) = length (workers t)
           \<and> (globalQueue t = [] \<longrightarrow> workers t = workers t \<and> globalQueue t = [])" by simp
  then show ?thesis by blast
qed

lemma step_total:
  assumes wf: "length (workers t) = length (workerStatus t)"
    and v: "valid_event (length (workers t)) ev"
  shows "\<exists>s. step ev t = Inr s \<and> length (workers s) = length (workerStatus s)
           \<and> length (workers s) = length (workers t)"
proof (cases ev)
  case (Message i msg)
  with v have i: "i < length (workers t)" by simp
  have "\<exists>s1. onMessage i msg t = Inr s1 \<and> length (workers s1) = length (workerStatus s1)
           \<and> length (workers s1) = length (workers t)"
  proof (cases msg)
    case Setup
    with i show ?thesis using wf by (simp add: onMessage_def Let_def postMessage_def)
  next
    case (Done k nm r dt)
    have "\<exists>s1. onMessage i (Done k nm r dt) t = Inr s1"
      using i wf by (cases "jobs t k") (simp_all add: onMessage_def Let_def)
    then obtain s1 where om: "onMessage i (Done k nm r dt) t = Inr s1" by blast
    note e = onMessage_Done[OF om, THEN conjunct2]
    have "length (workers s1) = length (workers t)"
      "length (workerStatus s1) = length (workerStatus t)"
      by (subst e, simp)+
    with om Done wf show ?thesis by simp
  qed
  then obtain s1 where om: "onMessage i msg t = Inr s1"
    and wf1: "length (workers s1) = length (workerStatus s1)"
    and l1: "length (workers s1) = length (workers t)"
    by blast
  have "\<exists>s. runMicrotasks s1 = Inr s"
    using resume_calls_total[of "s1\<lparr>awaiting := []\<rparr>" "awaiting s1"] wf1
    by (simp add: runMicrotasks_def)
  then obtain s where rm: "runMicrotasks s1 = Inr s" by blast
  from runMicrotasks_changes[OF rm] wf1 l1
  have "length (workers s) = length (workerStatus s) \<and> length (workers s) = length (workers t)"
    by (cases "isReady s1") auto
  with om rm Message show ?thesis by simp
next
  case (CallEvent nm d a3 a4)
  obtain wl prio where dz: "deswizzle a3 a4 = (wl, prio)" by (cases "deswizzle a3 a4")
  show ?thesis
  proof (cases "isReady t")
    case False
    with CallEvent dz wf show ?thesis by (simp add: call_def)
  next
    case True
    from call_admit_total[OF wf, of nm d wl prio]
    obtain s where ca: "call_admit nm d wl prio t = Inr s" by blast
    from call_admit_changes[OF ca] wf
    have "length (workers s) = length (workerStatus s) \<and> length (workers s) = length (workers t)"
      by auto
    with ca True CallEvent dz show ?thesis by (simp add: call_def)
  qed
next
  case IdleUpdateEstimates
  with wf show ?thesis by (simp add: updateEstimates_idle_def updateEstimates_fn_def)
next
  case IdleReflow
  show ?thesis
  proof (cases "reflow_scheduled t")
    case False
    with IdleReflow wf show ?thesis by (simp add: reflow_idle_def)
  next
    case True
    have "length (workers (t\<lparr>reflow_scheduled := False\<rparr>))
            = length (workerStatus (t\<lparr>reflow_scheduled := False\<rparr>))" using wf by simp
    from reflow_fn_total[OF this]
    obtain s where rf: "reflow_fn (t\<lparr>reflow_scheduled := False\<rparr>) = Inr s" by blast
    from reflow_fn_changes[OF rf] wf
    have "length (workers s) = length (workerStatus s) \<and> length (workers s) = length (workers t)"
      by auto
    with rf True IdleReflow show ?thesis by (simp add: reflow_idle_def)
  qed
qed

section \<open>Invariants of runs\<close>

text \<open>
  What holds of the state after any run of a station built by the constructor.
\<close>

lemma constructor_initial:
  assumes "constructor cpuCount opts = Inr s0"
  shows "readyCount s0 = 0 \<and> \<not> isReady s0 \<and> awaiting s0 = [] \<and> jobId s0 = 0
       \<and> jobs s0 = Map.empty \<and> futures s0 = [] \<and> globalQueue s0 = [] \<and> posted_jobs s0 = []
       \<and> pendingEstimates s0 = [] \<and> length (workers s0) = length (workerStatus s0)"
  using assms by (auto simp: constructor_def Let_def posted_jobs_def split: if_splits)

lemma setups_snoc: "setups (evs @ [ev]) = setups evs + (if is_setup ev then 1 else 0)"
  by (simp add: setups_def)

lemma calls_snoc: "calls (evs @ [ev]) = calls evs @ call_of ev"
  by (simp add: calls_def)

lemma samples_snoc: "samples (evs @ [ev]) = samples evs @ sample_of ev"
  by (simp add: samples_def)

lemma run_invariant:
  assumes init: "constructor cpuCount opts = Inr s0"
  shows "exec evs s0 = Inr s \<Longrightarrow>
           length (workers s) = length (workers s0)
         \<and> readyCount s = setups evs
         \<and> (isReady s \<longleftrightarrow> 0 < length (workers s0) \<and> length (workers s0) \<le> setups evs)
         \<and> jobId s + length (awaiting s) = length (calls evs)
         \<and> (isReady s \<longrightarrow> awaiting s = [])
         \<and> (\<not> isReady s \<longrightarrow> awaiting s = calls evs \<and> jobs s = Map.empty \<and> futures s = []
               \<and> globalQueue s = [] \<and> posted_jobs s = [])
         \<and> pendingEstimates s = samples evs"
proof (induction evs arbitrary: s rule: rev_induct)
  case Nil
  with constructor_initial[OF init] show ?case
    by (simp add: setups_def calls_def samples_def)
next
  case (snoc ev evs)
  from snoc.prems obtain t where t: "exec evs s0 = Inr t" and st: "step ev t = Inr s"
    by (auto simp: exec_snoc split: sum.splits)
  note ih = snoc.IH[OF t]
  note sn = setups_snoc calls_snoc samples_snoc
  show ?case
  proof (cases ev)
    case (Message i msg)
    show ?thesis
    proof (cases msg)
      case Setup
      from step_effect_setup[OF st[unfolded Message Setup]] ih
      show ?thesis unfolding Message Setup by (auto simp: sn)
    next
      case (Done k nm r dt)
      from step_effect_done[OF st[unfolded Message Done]] ih
      show ?thesis unfolding Message Done by (simp add: sn)
    qed
  next
    case (CallEvent nm d a3 a4)
    from step_effect_call[OF st[unfolded CallEvent]] ih
    show ?thesis unfolding CallEvent by (simp add: sn)
  next
    case IdleUpdateEstimates
    from step_effect_idle_update[OF st[unfolded IdleUpdateEstimates]]
    obtain est u where "s = t\<lparr>estimates := est, updateEstimates_scheduled := u\<rparr>" by blast
    with ih show ?thesis unfolding IdleUpdateEstimates by (simp add: sn posted_jobs_def)
  next
    case IdleReflow
    from step_effect_idle_reflow[OF st[unfolded IdleReflow]]
    obtain wk ws gq rf where s: "s = t\<lparr>workers := wk, workerStatus := ws, globalQueue := gq,
                             reflow_scheduled := rf\<rparr>"
      and l: "length wk = length (workers t)"
      and e: "globalQueue t = [] \<longrightarrow> wk = workers t \<and> gq = []"
      by blast
    from ih l e show ?thesis unfolding IdleReflow s by (auto simp: sn posted_jobs_def)
  qed
qed

lemma ready_stays:
  "exec evs s = Inr s' \<Longrightarrow> isReady s \<Longrightarrow> isReady s'"
proof (induction evs arbitrary: s)
  case Nil
  then show ?case by simp
next
  case (Cons ev evs)
  from Cons.prems obtain t where st: "step ev s = Inr t" and ex: "exec evs t = Inr s'"
    by (auto split: sum.splits)
  have "isReady t"
  proof (cases ev)
    case (Message i msg)
    show ?thesis
    proof (cases msg)
      case Setup
      from step_effect_setup[OF st[unfolded Message Setup]] Cons.prems(2) show ?thesis by simp
    next
      case (Done k nm r dt)
      from step_effect_done[OF st[unfolded Message Done]] Cons.prems(2) show ?thesis by simp
    qed
  next
    case (CallEvent nm d a3 a4)
    from step_effect_call[OF st[unfolded CallEvent]] Cons.prems(2) show ?thesis by simp
  next
    case IdleUpdateEstimates
    from step_effect_idle_update[OF st[unfolded IdleUpdateEstimates]] Cons.prems(2)
    show ?thesis by auto
  next
    case IdleReflow
    from step_effect_idle_reflow[OF st[unfolded IdleReflow]] Cons.prems(2)
    show ?thesis by auto
  qed
  with Cons.IH[OF ex] show ?case .
qed

lemma exec_total:
  assumes "length (workers t) = length (workerStatus t)"
    and "\<forall>ev \<in> set evs. valid_event (length (workers t)) ev"
  shows "\<exists>s. exec evs t = Inr s \<and> length (workers s) = length (workerStatus s)"
  using assms
proof (induction evs arbitrary: t)
  case Nil
  then show ?case by simp
next
  case (Cons ev evs)
  from step_total[OF Cons.prems(1), of ev] Cons.prems(2)
  obtain t' where st: "step ev t = Inr t'"
    and wf': "length (workers t') = length (workerStatus t')"
    and l: "length (workers t') = length (workers t)"
    by auto
  from Cons.prems(2) l have "\<forall>ev \<in> set evs. valid_event (length (workers t')) ev" by simp
  from Cons.IH[OF wf' this] st show ?case by simp
qed

lemma run_total:
  assumes "constructor cpuCount opts = Inr s0"
    and "\<forall>ev \<in> set evs. valid_event (length (workers s0)) ev"
  shows "\<exists>s. exec evs s0 = Inr s \<and> length (workers s) = length (workerStatus s)"
  using exec_total[OF _ assms(2)] constructor_initial[OF assms(1)] by simp

lemma run_reached:
  assumes "\<not> isl (run cpuCount opts evs)"
  shows "constructor cpuCount opts = Inr (reached cpuCount opts [])
       \<and> exec evs (reached cpuCount opts []) = Inr (reached cpuCount opts evs)"
proof (cases "constructor cpuCount opts")
  case (Inl e)
  with assms show ?thesis by (simp add: run_def)
next
  case (Inr s0)
  then have "reached cpuCount opts [] = s0" by (simp add: reached_def run_def)
  moreover from Inr have "run cpuCount opts evs = exec evs s0" by (simp add: run_def)
  moreover from assms have "run cpuCount opts evs = Inr (reached cpuCount opts evs)"
    by (simp add: reached_def)
  ultimately show ?thesis using Inr by simp
qed

section \<open>The estimates between an admission and a completion\<close>






section \<open>One pass of the estimate recomputation\<close>

text \<open>
  One pass over a list of samples adds, for each type that has an entry, the number of its
  samples to the count and makes the mean the weighted mean of the old mean and the samples.
  For a type without an entry whose samples are all those of the list, the result is the
  arithmetic mean of the list.
\<close>

lemma updateEstimates_loop_mean:
  assumes "est nm = Some \<lparr>length_est = n, mean = m\<rparr>" and "0 < n"
  shows "updateEstimates_loop xs est nm =
           Some \<lparr>length_est = n + length (filter (\<lambda>x. fst x = nm) xs),
                 mean = (m * of_nat n + sum_list (map snd (filter (\<lambda>x. fst x = nm) xs)))
                          / of_nat (n + length (filter (\<lambda>x. fst x = nm) xs))\<rparr>"
  using assms
proof (induction xs arbitrary: est n m)
  case Nil
  then show ?case by simp
next
  case (Cons x xs)
  obtain x1 dt where x: "x = (x1, dt)" by (cases x)
  show ?case
  proof (cases "x1 = nm")
    case False
    obtain est' where step: "updateEstimates_loop (x # xs) est = updateEstimates_loop xs est'"
      and same: "est' nm = est nm"
    proof (cases "est x1")
      case None
      with x False that[of "est(x1 \<mapsto> \<lparr>length_est = 1, mean = dt\<rparr>)"] show ?thesis by simp
    next
      case (Some e)
      with x False
        that[of "est(x1 \<mapsto> e\<lparr>length_est := length_est e + 1,
                   mean := (mean e * (of_nat (length_est e + 1) - 1) + dt)
                             / of_nat (length_est e + 1)\<rparr>)"]
      show ?thesis by (simp add: Let_def)
    qed
    from same Cons.prems(1) have e': "est' nm = Some \<lparr>length_est = n, mean = m\<rparr>" by simp
    have "updateEstimates_loop (x # xs) est nm = updateEstimates_loop xs est' nm"
      by (simp only: step)
    also have "\<dots> = Some \<lparr>length_est = n + length (filter (\<lambda>x. fst x = nm) xs),
                 mean = (m * of_nat n + sum_list (map snd (filter (\<lambda>x. fst x = nm) xs)))
                          / of_nat (n + length (filter (\<lambda>x. fst x = nm) xs))\<rparr>"
      by (rule Cons.IH[of est' n m, OF e' Cons.prems(2)])
    also have "\<dots> = Some \<lparr>length_est = n + length (filter (\<lambda>x. fst x = nm) (x # xs)),
                 mean = (m * of_nat n + sum_list (map snd (filter (\<lambda>x. fst x = nm) (x # xs))))
                          / of_nat (n + length (filter (\<lambda>x. fst x = nm) (x # xs)))\<rparr>"
      using False x by simp
    finally show ?thesis .
  next
    case True
    define m' where "m' = (m * (of_nat (n + 1) - 1) + dt) / of_nat (n + 1)"
    define est' where "est' = est(nm \<mapsto> \<lparr>length_est = n + 1, mean = m'\<rparr>)"
    have e': "est' nm = Some \<lparr>length_est = n + 1, mean = m'\<rparr>" by (simp add: est'_def)
    have mm: "m' * of_nat (n + 1) = m * of_nat n + dt" by (simp add: m'_def)
    have "updateEstimates_loop (x # xs) est nm = updateEstimates_loop xs est' nm"
      using Cons.prems(1) True x by (simp add: Let_def est'_def m'_def)
    also have "\<dots> = Some \<lparr>length_est = n + 1 + length (filter (\<lambda>x. fst x = nm) xs),
                 mean = (m' * of_nat (n + 1) + sum_list (map snd (filter (\<lambda>x. fst x = nm) xs)))
                          / of_nat (n + 1 + length (filter (\<lambda>x. fst x = nm) xs))\<rparr>"
      by (rule Cons.IH[of est' "n + 1" m', OF e']) simp
    also have "\<dots> = Some \<lparr>length_est = n + length (filter (\<lambda>x. fst x = nm) (x # xs)),
                 mean = (m * of_nat n + sum_list (map snd (filter (\<lambda>x. fst x = nm) (x # xs))))
                          / of_nat (n + length (filter (\<lambda>x. fst x = nm) (x # xs)))\<rparr>"
      unfolding mm using True x by (simp add: add.assoc add.commute)
    finally show ?thesis .
  qed
qed

lemma single_run_mean:
  assumes "est nm = None" and "xs = (nm, d) # rest" and "\<forall>x \<in> set rest. fst x = nm"
  shows "updateEstimates_loop xs est nm =
           Some \<lparr>length_est = length xs, mean = sum_list (map snd xs) / of_nat (length xs)\<rparr>"
proof -
  have f: "filter (\<lambda>x. fst x = nm) rest = rest" using assms(3) by (simp add: filter_id_conv)
  have "updateEstimates_loop xs est nm
          = updateEstimates_loop rest (est(nm \<mapsto> \<lparr>length_est = 1, mean = d\<rparr>)) nm"
    using assms(1,2) by simp
  also have "\<dots> = Some \<lparr>length_est = 1 + length (filter (\<lambda>x. fst x = nm) rest),
                 mean = (d * of_nat 1 + sum_list (map snd (filter (\<lambda>x. fst x = nm) rest)))
                          / of_nat (1 + length (filter (\<lambda>x. fst x = nm) rest))\<rparr>"
    by (rule updateEstimates_loop_mean) simp_all
  finally show ?thesis using assms(2) f by simp
qed

section \<open>C1: the worker that receives an admitted job\<close>

text \<open>
  C1. An admitted job is to be sent to the eligible worker with the least estimated backlog
  (lowest pool index on ties), and that same worker's \<open>running\<close> and \<open>estimate\<close> are to be
  updated. The code updates the status object that \<^verbatim>\<open>arrayMin\<close> selected, but posts the
  message to the worker at the index of that object in the filtered array. With two workers of
  capacity one, the first job goes to worker 0; for the second job worker 1 is the only
  eligible one and its status is updated, yet the message is posted to worker 0, and worker 1
  is sent nothing beyond the setup acknowledgment.
\<close>

theorem schedule_posts_to_filtered_index:
  "observe workerStatus
       (run 8 (sized 1 2) [Message 0 Setup, Message 1 Setup, add_call])
     = Some [\<lparr>estimate = 10, running = 1\<rparr>, \<lparr>estimate = 0, running = 0\<rparr>]
   \<and> observe workerStatus
       (run 8 (sized 1 2) [Message 0 Setup, Message 1 Setup, add_call, add_call])
     = Some [\<lparr>estimate = 10, running = 1\<rparr>, \<lparr>estimate = 10, running = 1\<rparr>]
   \<and> observe workers
       (run 8 (sized 1 2) [Message 0 Setup, Message 1 Setup, add_call, add_call])
     = Some [[SetupAck 1, Call (job 0), Call (job 1)], [SetupAck 1]]"
  by code_simp

section \<open>C2: completions without a pending job\<close>

text \<open>
  C2. A done message whose id matches no pending job is to leave the station unchanged. The
  code guards only the resolution of the future with the lookup; the status update and the
  sample are unconditional. After a job has completed (\<open>running\<close> back to 0, future resolved
  with 15), a second done message with the same id resolves nothing, yet it takes \<open>running\<close>
  to -1 and \<open>estimate\<close> to -10 and appends a second sample.
\<close>

theorem unmatched_done_changes_status:
  "observe workerStatus
       (run 8 (sized 8 1) [Message 0 Setup, add_call, Message 0 (Done 0 ''add'' 15 4)])
     = Some [\<lparr>estimate = 0, running = 0\<rparr>]
   \<and> observe futures
       (run 8 (sized 8 1) [Message 0 Setup, add_call, Message 0 (Done 0 ''add'' 15 4)])
     = Some [Some 15]
   \<and> observe workerStatus
       (run 8 (sized 8 1) [Message 0 Setup, add_call, Message 0 (Done 0 ''add'' 15 4),
                           Message 0 (Done 0 ''add'' 15 4)])
     = Some [\<lparr>estimate = - 10, running = - 1\<rparr>]
   \<and> observe pendingEstimates
       (run 8 (sized 8 1) [Message 0 Setup, add_call, Message 0 (Done 0 ''add'' 15 4),
                           Message 0 (Done 0 ''add'' 15 4)])
     = Some [(''add'', 4), (''add'', 4)]
   \<and> observe futures
       (run 8 (sized 8 1) [Message 0 Setup, add_call, Message 0 (Done 0 ''add'' 15 4),
                           Message 0 (Done 0 ''add'' 15 4)])
     = Some [Some 15]"
  by code_simp

section \<open>C3: the mean of the observed durations\<close>

text \<open>
  C3. The mean is to be \<open>(d1 + ... + dn) / n\<close> however the samples are split across runs of
  the recomputation. One run over the samples of a type without an entry does leave their
  exact mean (\<open>single_run_mean\<close>). But every run starts again at the first sample ever
  recorded, as the buffer is never emptied, so the result depends on the split: durations 4
  and 6 give the mean 5 when one run processes both, but 14/3 when a run takes place after
  each completion, as the second run applies the sample 4 a second time.
\<close>

theorem split_runs_mean:
  "observe snapshot_add
       (run 8 (sized 8 1) [Message 0 Setup, add_call, add_call,
                           Message 0 (Done 0 ''add'' 15 4),
                           Message 0 (Done 1 ''add'' 15 6), IdleUpdateEstimates])
     = Some (Some 5)
   \<and> observe snapshot_add (run 8 (sized 8 1) (two_runs @ [IdleUpdateEstimates]))
     = Some (Some (14 / 3))"
  by code_simp

section \<open>C4: reflow\<close>

text \<open>
  C4. A reflow pass works the global queue strictly from the head, without priority: the
  function behind \<^verbatim>\<open>#reflow\<close> computes what the specification's loop computes (admit the
  head job, remove it, continue; stop at the first job that is refused), and it returns on
  every station whose two pool arrays have one length. Hence the queue left behind is the
  original queue with its first \<open>k\<close> jobs dropped, in the original order, and if it is
  non-empty its head is a job that the station refuses in the state reached.
\<close>

theorem reflow_head_of_line:
  "reflow_fn s = reflow_spec s
   \<and> (length (workers s) = length (workerStatus s) \<longrightarrow> (\<exists>s'. reflow_fn s = Inr s'))
   \<and> (\<forall>s'. reflow_fn s = Inr s' \<longrightarrow>
         (\<exists>k\<le>length (globalQueue s). globalQueue s' = drop k (globalQueue s))
         \<and> (globalQueue s' \<noteq> [] \<longrightarrow>
              schedule (hd (globalQueue s')) None s' = Inr (False, s')))"
  using reflow_spec_loop_rest[of "globalQueue s" s] reflow_fn_total[of s]
  by (simp add: reflow_fn_refines reflow_spec_def)

theorem reflow_head_of_line_witness:
  "reflow_fn queued_station = reflow_spec queued_station
   \<and> length (workers queued_station) = length (workerStatus queued_station)
   \<and> observe globalQueue (Inr queued_station) = Some [job 2, job 3]
   \<and> observe globalQueue (reflow_fn queued_station) = Some (drop 1 [job 2, job 3])
   \<and> observe (\<lambda>s. schedule (job 3) None s = Inr (False, s)) (reflow_fn queued_station)
       = Some True"
proof -
  have q: "observe globalQueue (Inr queued_station) = Some [job 2, job 3]"
    by code_simp
  have w: "length (workers queued_station) = length (workerStatus queued_station)"
    by code_simp
  have "observe globalQueue (reflow_fn queued_station) = Some [job 3]"
    by code_simp
  then obtain s' where r: "reflow_fn queued_station = Inr s'" and g: "globalQueue s' = [job 3]"
    by (auto simp: observe_def split: sum.splits)
  from reflow_head_of_line[of queued_station] r g
  have "reflow_fn queued_station = reflow_spec queued_station"
    and "schedule (job 3) None s' = Inr (False, s')"
    by auto
  with r g q w show ?thesis by (simp add: observe_def)
qed

section \<open>C5: refusal of non-priority jobs\<close>

text \<open>
  C5, as the code has it. A non-priority admission attempt is refused if and only if no
  worker's \<open>running\<close> count is below the local queue capacity, that is, every count is at least
  the capacity; and a call refused in this way on a ready station appends its job at the tail
  of the global queue and changes no worker.
\<close>

theorem nonpriority_refused_iff_all_full:
  assumes "\<not> truthy p"
  shows "((\<exists>s'. schedule c p s = Inr (False, s'))
            \<longleftrightarrow> (\<forall>st \<in> set (workerStatus s). localQueueSize s \<le> running st))
       \<and> (isReady s \<and> snd (deswizzle a3 a4) = p
            \<and> (\<forall>st \<in> set (workerStatus s). localQueueSize s \<le> running st) \<longrightarrow>
            (\<exists>s'. call nm d a3 a4 s = Inr s'
                 \<and> globalQueue s' = globalQueue s
                      @ [\<lparr>id_req = jobId s, name = nm, data = d,
                          workgroupLength = fst (deswizzle a3 a4)\<rparr>]
                 \<and> workers s' = workers s
                 \<and> workerStatus s' = workerStatus s))"
proof -
  obtain wl prio where dz: "deswizzle a3 a4 = (wl, prio)" by (cases "deswizzle a3 a4")
  have "isReady s \<Longrightarrow> prio = p
          \<Longrightarrow> \<forall>st \<in> set (workerStatus s). localQueueSize s \<le> running st \<Longrightarrow>
          \<exists>s'. call nm d a3 a4 s = Inr s'
                 \<and> globalQueue s' = globalQueue s
                      @ [\<lparr>id_req = jobId s, name = nm, data = d, workgroupLength = wl\<rparr>]
                 \<and> workers s' = workers s
                 \<and> workerStatus s' = workerStatus s"
    using call_admit_refused[OF assms, of s nm d wl] dz by (simp add: call_def)
  with schedule_refused_nonpriority[OF assms, of c s] dz show ?thesis by simp
qed

theorem nonpriority_refused_iff_all_full_witness:
  "\<not> truthy None
   \<and> snd (deswizzle None None) = None
   \<and> isReady busy_station
   \<and> workerStatus busy_station = [\<lparr>estimate = 10, running = 1\<rparr>]
   \<and> localQueueSize busy_station = 1
   \<and> schedule (job 1) None busy_station = Inr (False, busy_station)
   \<and> observe globalQueue (call ''add'' 0 None None busy_station) = Some [job 1]
   \<and> observe workerStatus (call ''add'' 0 None None busy_station)
       = Some [\<lparr>estimate = 10, running = 1\<rparr>]"
proof -
  have h: "\<not> truthy None" by code_simp
  have d: "deswizzle None None = (0, None)" by code_simp
  have r: "isReady busy_station" by code_simp
  have ws: "workerStatus busy_station = [\<lparr>estimate = 10, running = 1\<rparr>]" by code_simp
  have lq: "localQueueSize busy_station = 1" by code_simp
  have ji: "jobId busy_station = 1" by code_simp
  have gq: "globalQueue busy_station = []" by code_simp
  from nonpriority_refused_iff_all_full[OF h, of "job 1" busy_station None None "''add''" 0]
  have "\<exists>s'. schedule (job 1) None busy_station = Inr (False, s')"
    and "\<exists>s'. call ''add'' 0 None None busy_station = Inr s'
            \<and> globalQueue s' = [job 1] \<and> workerStatus s' = [\<lparr>estimate = 10, running = 1\<rparr>]"
    using d r ws lq ji gq by (auto simp: job_def)
  then show ?thesis using h d r ws lq by (auto simp: observe_def dest: schedule_refused_same)
qed

text \<open>
  C5 as stated speaks of counts equal to the capacity. Priority calls pass the capacity by
  design, so a count can exceed it: with one worker of capacity one, a job and then a priority
  job are admitted (\<open>running = 2\<close>), and the next non-priority call is refused and queued
  although no count equals the capacity.
\<close>

theorem refused_above_capacity:
  "observe localQueueSize
       (run 8 (sized 1 1) [Message 0 Setup, add_call, add_call_priority]) = Some 1
   \<and> observe workerStatus
       (run 8 (sized 1 1) [Message 0 Setup, add_call, add_call_priority])
       = Some [\<lparr>estimate = 20, running = 2\<rparr>]
   \<and> observe globalQueue
       (run 8 (sized 1 1) [Message 0 Setup, add_call, add_call_priority]) = Some []
   \<and> observe globalQueue
       (run 8 (sized 1 1) [Message 0 Setup, add_call, add_call_priority, add_call])
       = Some [job 2]"
  by code_simp

section \<open>C6: priority calls\<close>

text \<open>
  C6. When the pool is not empty, the admission of a call with the priority option set
  succeeds whatever the workers' \<open>running\<close> counts are: some worker \<open>w\<close> is sent the job
  wrapped as \<^verbatim>\<open>call_priority\<close> (the tag asking for insertion at the front of its local queue),
  the status of that same worker is updated, and the global queue is left alone. The worker
  chosen has the least estimate, and is the first such worker of the pool. On a ready station
  the call does this at once; on a station that is not ready yet the call is suspended with
  its priority, and the same admission runs when the call is resumed at the opening of the
  gate. The pool's two arrays have the same length in every state a constructed station
  reaches (\<open>run_total\<close>).
\<close>

theorem priority_call_admitted:
  assumes "length (workers s) = length (workerStatus s)"
    and "workerStatus s \<noteq> []"
    and "snd (deswizzle a3 a4) = Some True"
  shows "(\<exists>w<length (workerStatus s). \<exists>s'.
           call_admit nm d (fst (deswizzle a3 a4)) (Some True) s = Inr s'
         \<and> (isReady s \<longrightarrow> call nm d a3 a4 s = Inr s')
         \<and> workers s' = (workers s)
              [w := workers s ! w @ [CallPriority \<lparr>id_req = jobId s, name = nm, data = d,
                                                    workgroupLength = fst (deswizzle a3 a4)\<rparr>]]
         \<and> workerStatus s' = (workerStatus s)
              [w := (workerStatus s ! w)
                      \<lparr>running := running (workerStatus s ! w) + 1,
                       estimate := estimate (workerStatus s ! w) + getEstimate s nm\<rparr>]
         \<and> globalQueue s' = globalQueue s
         \<and> jobs s' = (jobs s)(jobId s \<mapsto> length (futures s))
         \<and> (\<forall>j<length (workerStatus s).
                estimate (workerStatus s ! w) \<le> estimate (workerStatus s ! j))
         \<and> (\<forall>j<w. estimate (workerStatus s ! w) < estimate (workerStatus s ! j)))
       \<and> (\<not> isReady s \<longrightarrow>
            call nm d a3 a4 s =
              Inr (s\<lparr>awaiting := awaiting s @ [(nm, d, fst (deswizzle a3 a4), Some True)]\<rparr>))"
proof -
  obtain wl prio where dz: "deswizzle a3 a4 = (wl, prio)" by (cases "deswizzle a3 a4")
  with assms(3) have p: "prio = Some True" by simp
  have r: "isReady s \<Longrightarrow> call nm d a3 a4 s = call_admit nm d wl (Some True) s"
    using dz p by (simp add: call_def)
  have n: "\<not> isReady s \<Longrightarrow>
             call nm d a3 a4 s = Inr (s\<lparr>awaiting := awaiting s @ [(nm, d, wl, Some True)]\<rparr>)"
    using dz p by (simp add: call_def)
  from call_admit_priority[OF assms(1) assms(2), of nm d wl]
  obtain w s' where "w < length (workerStatus s)"
    and "call_admit nm d wl (Some True) s = Inr s'"
    and "workers s' = (workers s)
              [w := workers s ! w @ [CallPriority \<lparr>id_req = jobId s, name = nm, data = d,
                                                    workgroupLength = wl\<rparr>]]"
    and "workerStatus s' = (workerStatus s)
              [w := (workerStatus s ! w)
                      \<lparr>running := running (workerStatus s ! w) + 1,
                       estimate := estimate (workerStatus s ! w) + getEstimate s nm\<rparr>]"
    and "globalQueue s' = globalQueue s"
    and "jobs s' = (jobs s)(jobId s \<mapsto> length (futures s))"
    and "\<forall>j<length (workerStatus s). estimate (workerStatus s ! w) \<le> estimate (workerStatus s ! j)"
    and "\<forall>j<w. estimate (workerStatus s ! w) < estimate (workerStatus s ! j)"
    by blast
  with r n dz show ?thesis by (intro conjI exI[of _ w] exI[of _ s']) simp_all
qed

theorem priority_call_admitted_witness:
  "length (workers busy_station) = length (workerStatus busy_station)
   \<and> isReady busy_station
   \<and> workerStatus busy_station = [\<lparr>estimate = 10, running = 1\<rparr>]
   \<and> localQueueSize busy_station = 1
   \<and> snd (deswizzle (Some (CallOptions \<lparr>priority = Some True\<rparr>)) None) = Some True
   \<and> observe workers
        (call ''add'' 0 (Some (CallOptions \<lparr>priority = Some True\<rparr>)) None busy_station)
       = Some [[SetupAck 1, Call (job 0), CallPriority (job 1)]]
   \<and> observe workerStatus
        (call ''add'' 0 (Some (CallOptions \<lparr>priority = Some True\<rparr>)) None busy_station)
       = Some [\<lparr>estimate = 20, running = 2\<rparr>]"
proof -
  have h1: "length (workers busy_station) = length (workerStatus busy_station)" by code_simp
  have h2: "isReady busy_station" by code_simp
  have ws: "workerStatus busy_station = [\<lparr>estimate = 10, running = 1\<rparr>]" by code_simp
  have wk: "workers busy_station = [[SetupAck 1, Call (job 0)]]" by code_simp
  have lq: "localQueueSize busy_station = 1" by code_simp
  have ji: "jobId busy_station = 1" by code_simp
  have ge: "getEstimate busy_station ''add'' = 10" by code_simp
  have h3: "workerStatus busy_station \<noteq> []" using ws by simp
  have h4: "snd (deswizzle (Some (CallOptions \<lparr>priority = Some True\<rparr>)) None) = Some True"
    by code_simp
  have f: "fst (deswizzle (Some (CallOptions \<lparr>priority = Some True\<rparr>)) None) = 0"
    by code_simp
  from priority_call_admitted[OF h1 h3 h4, of "''add''" 0]
  show ?thesis using h1 h2 ws wk lq ji ge h4 f by (auto simp: observe_def job_def)
qed

section \<open>C7: the estimated backlog\<close>




section \<open>C8: the readiness gate\<close>

text \<open>
  C8. Every run of a constructed station with a pool of \<open>N\<close> workers returns, and the station
  is ready exactly when the \<open>N\<close>-th setup message has been processed, that is when \<open>N\<close> is
  positive and at least \<open>N\<close> setup messages have arrived. While it is not ready, every call
  made so far is suspended: no job id has been allocated, the job map, the futures and the
  global queue are empty, and nothing but setup acknowledgments has been posted to any worker.
  Once ready, no call is left suspended, every call made so far has had its job created, and
  the station stays ready in every continuation of the run.
\<close>

theorem readiness_gate:
  assumes "constructor cpuCount opts = Inr s0"
    and "\<forall>ev \<in> set evs. valid_event (length (workers s0)) ev"
  shows "\<exists>s. exec evs s0 = Inr s
       \<and> (isReady s \<longleftrightarrow> 0 < length (workers s0) \<and> length (workers s0) \<le> setups evs)
       \<and> (\<not> isReady s \<longrightarrow>
             awaiting s = calls evs \<and> jobId s = 0 \<and> jobs s = Map.empty \<and> futures s = []
             \<and> globalQueue s = [] \<and> posted_jobs s = [])
       \<and> (isReady s \<longrightarrow> awaiting s = [] \<and> jobId s = length (calls evs))
       \<and> (\<forall>evs' s'. isReady s \<and> exec evs' s = Inr s' \<longrightarrow> isReady s')"
proof -
  from run_total[OF assms] obtain s where ex: "exec evs s0 = Inr s" by blast
  from run_invariant[OF assms(1) ex] ready_stays[of _ s]
  have "(isReady s \<longleftrightarrow> 0 < length (workers s0) \<and> length (workers s0) \<le> setups evs)
       \<and> (\<not> isReady s \<longrightarrow>
             awaiting s = calls evs \<and> jobId s = 0 \<and> jobs s = Map.empty \<and> futures s = []
             \<and> globalQueue s = [] \<and> posted_jobs s = [])
       \<and> (isReady s \<longrightarrow> awaiting s = [] \<and> jobId s = length (calls evs))
       \<and> (\<forall>evs' s'. isReady s \<and> exec evs' s = Inr s' \<longrightarrow> isReady s')"
    by auto
  with ex show ?thesis by blast
qed

theorem readiness_gate_witness:
  "constructor 8 (sized 1 2) = Inr (reached 8 (sized 1 2) [])
   \<and> length (workers (reached 8 (sized 1 2) [])) = 2
   \<and> list_all (valid_event 2) [add_call, Message 0 Setup, Message 1 Setup]
   \<and> exec [add_call, Message 0 Setup] (reached 8 (sized 1 2) [])
       = Inr (reached 8 (sized 1 2) [add_call, Message 0 Setup])
   \<and> exec [add_call, Message 0 Setup, Message 1 Setup] (reached 8 (sized 1 2) [])
       = Inr (reached 8 (sized 1 2) [add_call, Message 0 Setup, Message 1 Setup])
   \<and> \<not> isReady (reached 8 (sized 1 2) [add_call, Message 0 Setup])
   \<and> awaiting (reached 8 (sized 1 2) [add_call, Message 0 Setup]) = [(''add'', 0, 0, None)]
   \<and> jobId (reached 8 (sized 1 2) [add_call, Message 0 Setup]) = 0
   \<and> posted_jobs (reached 8 (sized 1 2) [add_call, Message 0 Setup]) = []
   \<and> isReady (reached 8 (sized 1 2) [add_call, Message 0 Setup, Message 1 Setup])
   \<and> awaiting (reached 8 (sized 1 2) [add_call, Message 0 Setup, Message 1 Setup]) = []
   \<and> jobId (reached 8 (sized 1 2) [add_call, Message 0 Setup, Message 1 Setup]) = 1"
proof -
  have r1: "\<not> isl (run 8 (sized 1 2) [add_call, Message 0 Setup])" by code_simp
  have r2: "\<not> isl (run 8 (sized 1 2) [add_call, Message 0 Setup, Message 1 Setup])" by code_simp
  note a = run_reached[OF r1] and b = run_reached[OF r2]
  have n: "length (workers (reached 8 (sized 1 2) [])) = 2" by code_simp
  have v: "list_all (valid_event 2) [add_call, Message 0 Setup, Message 1 Setup]" by code_simp
  have v1: "\<forall>ev \<in> set [add_call, Message 0 Setup].
              valid_event (length (workers (reached 8 (sized 1 2) []))) ev"
    using v n by simp
  have v2: "\<forall>ev \<in> set [add_call, Message 0 Setup, Message 1 Setup].
              valid_event (length (workers (reached 8 (sized 1 2) []))) ev"
    using v n by simp
  have s1: "setups [add_call, Message 0 Setup] = 1" by code_simp
  have s2: "setups [add_call, Message 0 Setup, Message 1 Setup] = 2" by code_simp
  have c1: "calls [add_call, Message 0 Setup] = [(''add'', 0, 0, None)]" by code_simp
  have c2: "calls [add_call, Message 0 Setup, Message 1 Setup] = [(''add'', 0, 0, None)]"
    by code_simp
  from readiness_gate[OF a[THEN conjunct1] v1] a n s1 c1
  have "\<not> isReady (reached 8 (sized 1 2) [add_call, Message 0 Setup])
   \<and> awaiting (reached 8 (sized 1 2) [add_call, Message 0 Setup]) = [(''add'', 0, 0, None)]
   \<and> jobId (reached 8 (sized 1 2) [add_call, Message 0 Setup]) = 0
   \<and> posted_jobs (reached 8 (sized 1 2) [add_call, Message 0 Setup]) = []"
    by auto
  moreover
  from readiness_gate[OF b[THEN conjunct1] v2] b n s2 c2
  have "isReady (reached 8 (sized 1 2) [add_call, Message 0 Setup, Message 1 Setup])
   \<and> awaiting (reached 8 (sized 1 2) [add_call, Message 0 Setup, Message 1 Setup]) = []
   \<and> jobId (reached 8 (sized 1 2) [add_call, Message 0 Setup, Message 1 Setup]) = 1"
    by auto
  ultimately show ?thesis using a b n v by simp
qed

section \<open>C9: construction\<close>

text \<open>
  C9, as the code has it. The constructor has no check of the pool size. It fails exactly when
  the size \<^verbatim>\<open>Math.min(cpuCount - 1, maxWorkers)\<close> is no array length (negative, or above
  \<open>2\<^sup>3\<^sup>2 - 1\<close>), through the \<^verbatim>\<open>RangeError\<close> of the array allocation; when the size is zero it
  returns a station with an empty pool, which is not ready and never becomes ready.
\<close>

theorem constructor_rejects_only_negative_pool:
  "((\<exists>e. constructor cpuCount opts = Inl e)
      \<longleftrightarrow> min (cpuCount - 1) (case maxWorkers opts of None \<Rightarrow> 4 | Some v \<Rightarrow> v) < 0
          \<or> 4294967295 < min (cpuCount - 1) (case maxWorkers opts of None \<Rightarrow> 4 | Some v \<Rightarrow> v))
   \<and> (min (cpuCount - 1) (case maxWorkers opts of None \<Rightarrow> 4 | Some v \<Rightarrow> v) = 0 \<longrightarrow>
        (\<exists>s. constructor cpuCount opts = Inr s \<and> workers s = [] \<and> workerStatus s = []
            \<and> (\<forall>evs s'. exec evs s = Inr s' \<longrightarrow> \<not> isReady s')))"
proof -
  have "\<not> isReady s'"
    if "constructor cpuCount opts = Inr s" and "workers s = []" and "exec evs s = Inr s'"
    for s evs s'
    using run_invariant[OF that(1) that(3)] that(2) by simp
  then show ?thesis by (auto simp: constructor_def Let_def)
qed

theorem constructor_rejects_only_negative_pool_witness:
  "min (1 - 1) (case maxWorkers default_options of None \<Rightarrow> 4 | Some v \<Rightarrow> v) = (0::int)
   \<and> observe workers (constructor 1 default_options) = Some []
   \<and> observe isReady (constructor 1 default_options) = Some False
   \<and> constructor 0 default_options = Inl RangeError"
proof -
  have z: "min (1 - 1) (case maxWorkers default_options of None \<Rightarrow> 4 | Some v \<Rightarrow> v) = (0::int)"
    by code_simp
  have n: "min (0 - 1) (case maxWorkers default_options of None \<Rightarrow> 4 | Some v \<Rightarrow> v) < (0::int)"
    by code_simp
  from constructor_rejects_only_negative_pool[of 1 default_options] z
  obtain s where "constructor 1 default_options = Inr s" "workers s = []"
    "\<forall>evs s'. exec evs s = Inr s' \<longrightarrow> \<not> isReady s'"
    by auto
  moreover from this(3) have "\<not> isReady s" using exec.simps(1)[of s] by blast
  ultimately have a: "\<exists>s. constructor 1 default_options = Inr s \<and> workers s = [] \<and> \<not> isReady s"
    by blast
  from constructor_rejects_only_negative_pool[of 0 default_options] n
  obtain e where "constructor 0 default_options = Inl e" by auto
  then have b: "constructor 0 default_options = Inl RangeError"
    by (auto simp: constructor_def Let_def split: if_splits)
  from a b z show ?thesis by (auto simp: observe_def)
qed

text \<open>
  C9 as stated fails on a host with a single hardware thread: the default options give a pool
  of size zero and the constructor returns a station with no workers.
\<close>

theorem constructor_accepts_empty_pool:
  "observe workers (constructor 1 default_options) = Some []
   \<and> observe workerStatus (constructor 1 default_options) = Some []"
  by code_simp

section \<open>C10: the pending-estimate buffer\<close>

text \<open>
  C10. Nothing removes a sample from \<^verbatim>\<open>#pendingEstimates\<close>: in every run of a constructed
  station the buffer holds exactly the samples of all completions processed so far, whatever
  runs of the estimate recomputation took place in between; a run of the recomputation leaves
  the buffer as it is and applies every one of these samples to the estimate table as it
  stands, those applied by earlier runs included.
\<close>

theorem pending_estimates_kept:
  assumes "constructor cpuCount opts = Inr s0"
    and "\<forall>ev \<in> set evs. valid_event (length (workers s0)) ev"
  shows "\<exists>s. exec evs s0 = Inr s
       \<and> pendingEstimates s = samples evs
       \<and> pendingEstimates (updateEstimates_fn s) = samples evs
       \<and> estimates (updateEstimates_fn s) = updateEstimates_loop (samples evs) (estimates s)
       \<and> (updateEstimates_scheduled s \<longrightarrow>
            (\<exists>s'. exec (evs @ [IdleUpdateEstimates]) s0 = Inr s'
                 \<and> pendingEstimates s' = samples evs
                 \<and> estimates s' = updateEstimates_loop (samples evs) (estimates s)))"
proof -
  from run_total[OF assms] obtain s where ex: "exec evs s0 = Inr s" by blast
  from run_invariant[OF assms(1) ex] have p: "pendingEstimates s = samples evs" by simp
  have "exec (evs @ [IdleUpdateEstimates]) s0 = Inr (updateEstimates_idle s)"
    using ex by (simp add: exec_snoc)
  with p have "pendingEstimates s = samples evs
       \<and> pendingEstimates (updateEstimates_fn s) = samples evs
       \<and> estimates (updateEstimates_fn s) = updateEstimates_loop (samples evs) (estimates s)
       \<and> (updateEstimates_scheduled s \<longrightarrow>
            (\<exists>s'. exec (evs @ [IdleUpdateEstimates]) s0 = Inr s'
                 \<and> pendingEstimates s' = samples evs
                 \<and> estimates s' = updateEstimates_loop (samples evs) (estimates s)))"
    by (simp add: updateEstimates_fn_def updateEstimates_idle_def)
  with ex show ?thesis by blast
qed

theorem pending_estimates_kept_witness:
  "constructor 8 (sized 8 1) = Inr (reached 8 (sized 8 1) [])
   \<and> length (workers (reached 8 (sized 8 1) [])) = 1
   \<and> list_all (valid_event 1) two_runs
   \<and> exec two_runs (reached 8 (sized 8 1) []) = Inr (reached 8 (sized 8 1) two_runs)
   \<and> updateEstimates_scheduled (reached 8 (sized 8 1) two_runs)
   \<and> pendingEstimates (reached 8 (sized 8 1) two_runs) = [(''add'', 4), (''add'', 6)]
   \<and> pendingEstimates (updateEstimates_fn (reached 8 (sized 8 1) two_runs))
       = [(''add'', 4), (''add'', 6)]
   \<and> estimates (updateEstimates_fn (reached 8 (sized 8 1) two_runs)) ''add''
       = Some \<lparr>length_est = 3, mean = 14 / 3\<rparr>"
proof -
  have r: "\<not> isl (run 8 (sized 8 1) two_runs)" by code_simp
  note a = run_reached[OF r]
  have n: "length (workers (reached 8 (sized 8 1) [])) = 1" by code_simp
  have v: "list_all (valid_event 1) two_runs" by code_simp
  have v1: "\<forall>ev \<in> set two_runs. valid_event (length (workers (reached 8 (sized 8 1) []))) ev"
    using v n by (simp add: list_all_iff)
  have s: "samples two_runs = [(''add'', 4), (''add'', 6)]" by code_simp
  have u: "updateEstimates_scheduled (reached 8 (sized 8 1) two_runs)" by code_simp
  have e: "estimates (reached 8 (sized 8 1) two_runs) ''add'' = Some \<lparr>length_est = 1, mean = 4\<rparr>"
    by code_simp
  from pending_estimates_kept[OF a[THEN conjunct1] v1] a s
  have "pendingEstimates (reached 8 (sized 8 1) two_runs) = [(''add'', 4), (''add'', 6)]"
    and "pendingEstimates (updateEstimates_fn (reached 8 (sized 8 1) two_runs))
       = [(''add'', 4), (''add'', 6)]"
    and "estimates (updateEstimates_fn (reached 8 (sized 8 1) two_runs))
       = updateEstimates_loop [(''add'', 4), (''add'', 6)]
           (estimates (reached 8 (sized 8 1) two_runs))"
    by auto
  with a u e n v show ?thesis by (simp add: Let_def)
qed

end
